theory Spec2Isabelle
  imports Complex_Main "HOL-Library.Multiset"
begin

section \<open>Hierarchical Risk Parity: the model of \<open>modfin/PortOptm/hrp.py\<close>\<close>

text \<open>
  The class \<open>HierarchicalRiskParity\<close> is embedded function by function. Python exceptions
  are values of the type \<open>error\<close>; a function that can raise returns \<open>error + 'a\<close> with
  \<open>Inl\<close> for the exception. Python's \<open>IndexError\<close> carries the place that raised it, and
  a \<open>ValueError\<close> raised inside a library carries the library, so that the theorems can
  tell them apart from the \<open>ValueError\<close> that \<open>hrp.py\<close> raises itself.
\<close>

subsection \<open>Errors\<close>

datatype origin = LinkageRow | ClusterList | Iloc | AssetIndex

datatype library = SciPy | Matplotlib

datatype error =
    ValueError
  | ValueErrorIn library
  | TypeError
  | AttributeError
  | IndexError origin
  | KeyError
  | UnboundLocalError
  | RecursionError

subsection \<open>The constructor\<close>

text \<open>
  \<open>str.lower\<close> on the characters that matter here: the letters \<open>A\<close> to \<open>Z\<close> are mapped to
  \<open>a\<close> to \<open>z\<close>. Every other character of the 8-bit type \<open>char\<close> is left alone; lower-casing
  a non-ASCII character never gives an ASCII letter of one of the accepted names, so
  membership in the lists below is not affected.
\<close>

definition lower_char :: "char \<Rightarrow> char" where
  "lower_char c =
     (case map_of (zip ''ABCDEFGHIJKLMNOPQRSTUVWXYZ'' ''abcdefghijklmnopqrstuvwxyz'') c of
        Some d \<Rightarrow> d
      | None \<Rightarrow> c)"

definition lower :: "string \<Rightarrow> string" where
  "lower s = map lower_char s"

definition risk_metric_names :: "string list" where
  "risk_metric_names = [''variance'', ''semivariance'', ''shrinkage'', ''letoidwolf'', ''oas'']"

definition method_names :: "string list" where
  "method_names =
     [''ward'', ''single'', ''average'', ''complete'', ''median'', ''weighted'', ''centroid'']"

text \<open>
  The instance: its attribute dictionary. \<open>clusters\<close> is \<open>None\<close> after construction and
  the linkage matrix (the list of the two child ids of every merge record) after
  \<open>optimize\<close>. An attribute that was never assigned is absent from the dictionary; the
  class itself has no data attributes, only methods.
\<close>

type_synonym linkage = "(int \<times> int) list"

datatype pyval = PyNone | PyStr string | PyLinkage linkage | PyNames "string list"

type_synonym hrp_object = "string \<rightharpoonup> pyval"

definition init :: "string \<Rightarrow> string \<Rightarrow> error + hrp_object" where
  "init RiskMetrics Method =
     (let self = [''clusters'' \<mapsto> PyNone]
      in if lower RiskMetrics \<notin> set risk_metric_names then Inl ValueError
         else let self = self(''_RiskMetrics'' \<mapsto> PyStr (lower RiskMetrics))
              in if lower Method \<notin> set method_names then Inl ValueError
                 else Inr (self(''_Method'' \<mapsto> PyStr (lower Method))))"

subsection \<open>Quasi-diagonalisation\<close>

text \<open>
  \<open>_getQuasiDiag(cluster, num_assets, curr_index)\<close>. The linkage matrix is read through
  \<open>int(cluster[row, 0])\<close> and \<open>int(cluster[row, 1])\<close>, so a row is the pair of its two child
  ids. The row index \<open>curr_index - num_assets\<close> is not negative where it is read, and NumPy
  raises \<open>IndexError\<close> past the last row.

  The function is recursive and Python bounds the depth of recursion: the first argument
  is the number of nested calls the interpreter still allows, and \<open>RecursionError\<close> is
  raised when none is left.
\<close>

fun getQuasiDiag :: "nat \<Rightarrow> linkage \<Rightarrow> int \<Rightarrow> int \<Rightarrow> error + int list" where
  "getQuasiDiag 0 cluster num_assets curr_index = Inl RecursionError"
| "getQuasiDiag (Suc depth) cluster num_assets curr_index =
     (if curr_index < num_assets then Inr [curr_index]
      else if length cluster \<le> nat (curr_index - num_assets) then Inl (IndexError LinkageRow)
      else
        let left = fst (cluster ! nat (curr_index - num_assets));
            right = snd (cluster ! nat (curr_index - num_assets))
        in case getQuasiDiag depth cluster num_assets left of
             Inl e \<Rightarrow> Inl e
           | Inr ls \<Rightarrow>
               (case getQuasiDiag depth cluster num_assets right of
                  Inl e \<Rightarrow> Inl e
                | Inr rs \<Rightarrow> Inr (ls @ rs)))"

text \<open>
  A merge tree over \<open>n\<close> leaves, as the clustering primitive produces it: \<open>n - 1\<close> records;
  record \<open>k\<close> is the node \<open>n + k\<close> and merges two nodes that exist already (ids from \<open>0\<close>
  and below \<open>n + k\<close>); and it is a tree: no node is merged twice, so all child ids differ.
\<close>

definition children :: "linkage \<Rightarrow> int list" where
  "children cluster = concat (map (\<lambda>(l, r). [l, r]) cluster)"

definition bounded_children :: "linkage \<Rightarrow> int \<Rightarrow> bool" where
  "bounded_children c n \<longleftrightarrow>
     (\<forall>k < length c. 0 \<le> fst (c ! k) \<and> fst (c ! k) < n + int k \<and>
                      0 \<le> snd (c ! k) \<and> snd (c ! k) < n + int k)"

definition merge_tree :: "linkage \<Rightarrow> int \<Rightarrow> bool" where
  "merge_tree cluster n \<longleftrightarrow>
     2 \<le> n \<and> int (length cluster) = n - 1 \<and> bounded_children cluster n \<and>
     distinct (children cluster)"

text \<open>
  The leaves below a node, as a multiset: what \<open>_getQuasiDiag\<close> returns for the node when
  it has the depth to return.
\<close>

definition leaves :: "linkage \<Rightarrow> int \<Rightarrow> int \<Rightarrow> int multiset" where
  "leaves c n i = (case getQuasiDiag (Suc (nat i)) c n i of Inl e \<Rightarrow> {#} | Inr xs \<Rightarrow> mset xs)"

subsection \<open>Floating-point numbers\<close>

text \<open>
  A \<open>float64\<close> is a real number, \<open>inf\<close>, \<open>-inf\<close> or \<open>nan\<close>. The arithmetic is NumPy's
  without rounding error: \<open>nan\<close> absorbs, a division by zero gives \<open>nan\<close> for \<open>0 / 0\<close> and an
  infinity otherwise (NumPy warns and does not raise), \<open>inf - inf\<close> and \<open>inf * 0\<close> are
  \<open>nan\<close>. Not modelled: rounding, overflow, and the sign of a zero (every zero divides
  like \<open>+0.0\<close>).
\<close>

datatype fl = Fin real | PInf | NInf | NaN

fun fneg :: "fl \<Rightarrow> fl" where
  "fneg (Fin x) = Fin (- x)"
| "fneg PInf = NInf"
| "fneg NInf = PInf"
| "fneg NaN = NaN"

fun fadd :: "fl \<Rightarrow> fl \<Rightarrow> fl" where
  "fadd (Fin x) (Fin y) = Fin (x + y)"
| "fadd NaN b = NaN"
| "fadd a NaN = NaN"
| "fadd PInf NInf = NaN"
| "fadd NInf PInf = NaN"
| "fadd PInf b = PInf"
| "fadd a PInf = PInf"
| "fadd NInf b = NInf"
| "fadd a NInf = NInf"

definition fsub :: "fl \<Rightarrow> fl \<Rightarrow> fl" where
  "fsub a b = fadd a (fneg b)"

fun fmul :: "fl \<Rightarrow> fl \<Rightarrow> fl" where
  "fmul (Fin x) (Fin y) = Fin (x * y)"
| "fmul NaN b = NaN"
| "fmul a NaN = NaN"
| "fmul (Fin x) b = (if x = 0 then NaN else if 0 < x then b else fneg b)"
| "fmul a (Fin y) = (if y = 0 then NaN else if 0 < y then a else fneg a)"
| "fmul PInf b = b"
| "fmul NInf b = fneg b"

fun fdiv :: "fl \<Rightarrow> fl \<Rightarrow> fl" where
  "fdiv (Fin x) (Fin y) =
     (if y = 0 then (if x = 0 then NaN else if 0 < x then PInf else NInf) else Fin (x / y))"
| "fdiv NaN b = NaN"
| "fdiv a NaN = NaN"
| "fdiv (Fin x) b = Fin 0"
| "fdiv a (Fin y) = (if 0 \<le> y then a else fneg a)"
| "fdiv a b = NaN"

fun fsum :: "fl list \<Rightarrow> fl" where
  "fsum [] = Fin 0"
| "fsum (x # xs) = fadd x (fsum xs)"

fun finite_fl :: "fl \<Rightarrow> bool" where
  "finite_fl (Fin x) = True"
| "finite_fl a = False"

subsection \<open>Cluster variance\<close>

text \<open>
  The risk matrix is a square \<open>DataFrame\<close>: the list of its rows. \<open>iloc\<close> with a list of
  positions accepts \<open>-len \<le> i < len\<close> on each axis (a negative position counts from the
  end) and raises \<open>IndexError\<close> otherwise.
\<close>

type_synonym cov = "fl list list"

fun traverse :: "('a \<Rightarrow> error + 'b) \<Rightarrow> 'a list \<Rightarrow> error + 'b list" where
  "traverse f [] = Inr []"
| "traverse f (x # xs) =
     (case f x of
        Inl e \<Rightarrow> Inl e
      | Inr y \<Rightarrow> (case traverse f xs of Inl e \<Rightarrow> Inl e | Inr ys \<Rightarrow> Inr (y # ys)))"

definition position :: "origin \<Rightarrow> nat \<Rightarrow> int \<Rightarrow> error + nat" where
  "position from len i =
     (if 0 \<le> i \<and> i < int len then Inr (nat i)
      else if - int len \<le> i \<and> i < 0 then Inr (nat (i + int len))
      else Inl (IndexError from))"

definition ncols :: "cov \<Rightarrow> nat" where
  "ncols covariance = (case covariance of [] \<Rightarrow> 0 | row # _ \<Rightarrow> length row)"

definition iloc :: "cov \<Rightarrow> int list \<Rightarrow> error + cov" where
  "iloc covariance indices =
     (case traverse (position Iloc (length covariance)) indices of
        Inl e \<Rightarrow> Inl e
      | Inr rows \<Rightarrow>
          (case traverse (position Iloc (ncols covariance)) indices of
             Inl e \<Rightarrow> Inl e
           | Inr cols \<Rightarrow> Inr (map (\<lambda>i. map (\<lambda>j. covariance ! i ! j) cols) rows)))"

text \<open>\<open>_getIVP\<close>: \<open>1 / diag\<close>, then scaled by \<open>1 / sum\<close>.\<close>

definition getIVP :: "cov \<Rightarrow> fl list" where
  "getIVP cv =
     (let ivp = map (\<lambda>i. fdiv (Fin 1) (cv ! i ! i)) [0 ..< length cv]
      in map (\<lambda>x. fmul x (fdiv (Fin 1) (fsum ivp))) ivp)"

text \<open>
  Modelled from the spec: \<open>PortfolioMetrics.ExpectedVariance\<close> (module \<open>modfin.utils\<close>) is
  called by \<open>_getClusterVar\<close> and is not among the sources. The specification gives it as
  the portfolio variance, the quadratic form of the weights over the restricted risk
  matrix.
\<close>

definition ExpectedVariance :: "cov \<Rightarrow> fl list \<Rightarrow> fl" where
  "ExpectedVariance CovarianceMatrix Weights =
     fsum (map (\<lambda>i. fsum (map (\<lambda>j.
        fmul (fmul (Weights ! i) (CovarianceMatrix ! i ! j)) (Weights ! j))
          [0 ..< length Weights])) [0 ..< length Weights])"

definition getClusterVar :: "cov \<Rightarrow> int list \<Rightarrow> error + fl" where
  "getClusterVar covariance cluster_indices =
     (case iloc covariance cluster_indices of
        Inl e \<Rightarrow> Inl e
      | Inr cluster_covariance \<Rightarrow>
          Inr (ExpectedVariance cluster_covariance (getIVP cluster_covariance)))"

subsection \<open>Recursive bisection\<close>

text \<open>
  \<open>weights\<close> is a \<open>Series\<close> whose index is \<open>ordered_indices\<close>: the list of its
  (label, value) entries in index order. \<open>weights[cluster] *= a\<close> selects by label, and
  every label of a cluster is a label of the index, since the clusters are slices of
  \<open>ordered_indices\<close>.
\<close>

type_synonym series = "(int \<times> fl) list"

definition py_slice :: "'a list \<Rightarrow> nat \<Rightarrow> nat \<Rightarrow> 'a list" where
  "py_slice xs start end = take (end - start) (drop start xs)"

definition bisection :: "int list list \<Rightarrow> int list list" where
  "bisection clustered_alphas =
     [py_slice cluster start end.
        cluster \<leftarrow> clustered_alphas,
        (start, end) \<leftarrow> [(0, length cluster div 2), (length cluster div 2, length cluster)],
        1 < length cluster]"

text \<open>
  The two halves of one cluster in the words of the specification: the first
  \<open>len // 2\<close> members and the rest, and nothing for a cluster of fewer than two members.
\<close>

definition halves :: "int list \<Rightarrow> int list list" where
  "halves c = (if 1 < length c then [take (length c div 2) c, drop (length c div 2) c] else [])"

text \<open>The clusters that are split: those of more than one member, in their order.\<close>

definition parents :: "int list list \<Rightarrow> int list list" where
  "parents cs = filter (\<lambda>c. 1 < length c) cs"

definition alloc_factor :: "fl \<Rightarrow> fl \<Rightarrow> fl" where
  "alloc_factor left_cluster_variance right_cluster_variance =
     fsub (Fin 1)
       (fdiv left_cluster_variance (fadd left_cluster_variance right_cluster_variance))"

definition scale_at :: "int list \<Rightarrow> fl \<Rightarrow> series \<Rightarrow> series" where
  "scale_at cluster factor weights =
     map (\<lambda>(label, x). if label \<in> set cluster then (label, fmul x factor) else (label, x))
       weights"

text \<open>
  The loop \<open>for subcluster in range(0, len(clustered_alphas), 2)\<close>: it reads the entries
  \<open>subcluster\<close> and \<open>subcluster + 1\<close>, and the second read raises \<open>IndexError\<close> on a list of
  odd length.
\<close>

fun alloc_pairs :: "cov \<Rightarrow> int list list \<Rightarrow> series \<Rightarrow> error + series" where
  "alloc_pairs covariance_matrix [] weights = Inr weights"
| "alloc_pairs covariance_matrix [left_cluster] weights = Inl (IndexError ClusterList)"
| "alloc_pairs covariance_matrix (left_cluster # right_cluster # rest) weights =
     (case getClusterVar covariance_matrix left_cluster of
        Inl e \<Rightarrow> Inl e
      | Inr left_cluster_variance \<Rightarrow>
          (case getClusterVar covariance_matrix right_cluster of
             Inl e \<Rightarrow> Inl e
           | Inr right_cluster_variance \<Rightarrow>
               (let a = alloc_factor left_cluster_variance right_cluster_variance
                in alloc_pairs covariance_matrix rest
                     (scale_at right_cluster (fsub (Fin 1) a)
                        (scale_at left_cluster a weights)))))"

text \<open>The \<open>while clustered_alphas:\<close> loop; it ends when the list of clusters is empty.\<close>

definition remaining :: "int list list \<Rightarrow> nat" where
  "remaining cs = (\<Sum>c \<leftarrow> cs. if length c \<le> 1 then 1 else 2 * length c - 1)"

lemma remaining_bisection: "cs \<noteq> [] \<Longrightarrow> remaining (bisection cs) < remaining cs"
proof (induction cs)
  case Nil
  then show ?case by simp
next
  case (Cons c cs)
  have one: "remaining (bisection [c]) < remaining [c]"
    by (auto simp: remaining_def bisection_def py_slice_def)
  have app: "bisection (c # cs) = bisection [c] @ bisection cs"
    by (simp add: bisection_def)
  have sum: "remaining (xs @ ys) = remaining xs + remaining ys" for xs ys
    by (simp add: remaining_def)
  have le: "remaining (bisection cs) \<le> remaining cs"
    using Cons.IH by (cases "cs = []") (auto simp: bisection_def)
  have "remaining (c # cs) = remaining [c] + remaining cs"
    by (simp add: remaining_def)
  with one le show ?case
    by (simp add: app sum)
qed

function while_clusters :: "cov \<Rightarrow> int list list \<Rightarrow> series \<Rightarrow> error + series" where
  "while_clusters covariance_matrix clustered_alphas weights =
     (if clustered_alphas = [] then Inr weights
      else case alloc_pairs covariance_matrix (bisection clustered_alphas) weights of
             Inl e \<Rightarrow> Inl e
           | Inr weights' \<Rightarrow>
               while_clusters covariance_matrix (bisection clustered_alphas) weights')"
  by pat_completeness auto
termination
  by (relation "measure (\<lambda>(cv, cs, w). remaining cs)") (auto simp: remaining_bisection)

text \<open>
  \<open>_getRecBipart\<close>. \<open>assets[ordered_indices]\<close> reads the asset labels by position;
  the result is the list of (asset label, weight) entries in the order of
  \<open>ordered_indices\<close>.
\<close>

definition getRecBipart :: "cov \<Rightarrow> string list \<Rightarrow> int list \<Rightarrow> error + (string \<times> fl) list" where
  "getRecBipart covariance_matrix assets ordered_indices =
     (let weights = map (\<lambda>i. (i, Fin 1)) ordered_indices;
          clustered_alphas = [ordered_indices]
      in case while_clusters covariance_matrix clustered_alphas weights of
           Inl e \<Rightarrow> Inl e
         | Inr weights \<Rightarrow>
             (case traverse (position AssetIndex (length assets)) ordered_indices of
                Inl e \<Rightarrow> Inl e
              | Inr ps \<Rightarrow> Inr (zip (map (\<lambda>p. assets ! p) ps) (map snd weights))))"

subsection \<open>The recursive bisection in the words of the specification\<close>

text \<open>
  The allocator as the specification words it, to be compared with \<open>_getRecBipart\<close>.
  Every asset starts with the weight 1 and the clusters start as the one cluster of all
  ordered indices. Until no cluster has more than one member: every cluster of more than
  one member is split at \<open>len // 2\<close> into a left and a right half; every such pair gets the
  allocation factor \<open>a = 1 - var_left / (var_left + var_right)\<close> from the cluster variances
  of its halves; and the weight of every asset of a left half is multiplied by the \<open>a\<close> of
  its pair, the weight of every asset of a right half by \<open>1 - a\<close>.
\<close>

definition spec_pairs :: "int list list \<Rightarrow> (int list \<times> int list) list" where
  "spec_pairs cs =
     map (\<lambda>c. (take (length c div 2) c, drop (length c div 2) c)) (filter (\<lambda>c. 1 < length c) cs)"

definition spec_factor :: "cov \<Rightarrow> int list \<times> int list \<Rightarrow> error + fl" where
  "spec_factor cv p =
     (case getClusterVar cv (fst p) of
        Inl e \<Rightarrow> Inl e
      | Inr var_left \<Rightarrow>
          (case getClusterVar cv (snd p) of
             Inl e \<Rightarrow> Inl e
           | Inr var_right \<Rightarrow>
               Inr (fsub (Fin 1) (fdiv var_left (fadd var_left var_right)))))"

fun spec_weight :: "((int list \<times> int list) \<times> fl) list \<Rightarrow> int \<Rightarrow> fl \<Rightarrow> fl" where
  "spec_weight [] k x = x"
| "spec_weight (((l, r), a) # ps) k x =
     (if k \<in> set l then fmul x a
      else if k \<in> set r then fmul x (fsub (Fin 1) a)
      else spec_weight ps k x)"

definition spec_level :: "cov \<Rightarrow> int list list \<Rightarrow> series \<Rightarrow> error + series" where
  "spec_level cv cs w =
     (case traverse (spec_factor cv) (spec_pairs cs) of
        Inl e \<Rightarrow> Inl e
      | Inr factors \<Rightarrow>
          Inr (map (\<lambda>(k, x). (k, spec_weight (zip (spec_pairs cs) factors) k x)) w))"

lemma remaining_halves:
  "\<not> list_all (\<lambda>c. length c \<le> 1) cs \<Longrightarrow> remaining (concat (map halves cs)) < remaining cs"
proof -
  assume a: "\<not> list_all (\<lambda>c. length c \<le> 1) cs"
  have "bisection xs = concat (map halves xs)" for xs
    by (induction xs) (simp_all add: bisection_def py_slice_def halves_def)
  moreover from a have "cs \<noteq> []" by auto
  ultimately show ?thesis using remaining_bisection [of cs] by simp
qed

function spec_run :: "cov \<Rightarrow> int list list \<Rightarrow> series \<Rightarrow> error + series" where
  "spec_run cv cs w =
     (if list_all (\<lambda>c. length c \<le> 1) cs then Inr w
      else case spec_level cv cs w of
             Inl e \<Rightarrow> Inl e
           | Inr w' \<Rightarrow> spec_run cv (concat (map halves cs)) w')"
  by pat_completeness auto
termination
  by (relation "measure (\<lambda>(cv, cs, w). remaining cs)") (auto simp: remaining_halves)

definition spec_getRecBipart :: "cov \<Rightarrow> string list \<Rightarrow> int list \<Rightarrow> error + (string \<times> fl) list" where
  "spec_getRecBipart cv assets ordered =
     (case spec_run cv [ordered] (map (\<lambda>i. (i, Fin 1)) ordered) of
        Inl e \<Rightarrow> Inl e
      | Inr w \<Rightarrow>
          (case traverse (position AssetIndex (length assets)) ordered of
             Inl e \<Rightarrow> Inl e
           | Inr ps \<Rightarrow> Inr (zip (map (\<lambda>p. assets ! p) ps) (map snd w))))"

text \<open>
  The clusters of the \<open>k\<close>-th pass of the loop of \<open>_getRecBipart\<close> on an ordered sequence.
\<close>

definition level :: "nat \<Rightarrow> int list \<Rightarrow> int list list" where
  "level k ordered_indices = (bisection ^^ k) [ordered_indices]"

text \<open>
  The risk matrix of \<open>N\<close> uncorrelated assets of the same variance \<open>v\<close>.
\<close>

definition diag_cov :: "nat \<Rightarrow> real \<Rightarrow> cov" where
  "diag_cov N v = map (\<lambda>i. map (\<lambda>j. if i = j then Fin v else Fin 0) [0 ..< N]) [0 ..< N]"

text \<open>
  The state of the loop on such a matrix: the clusters are disjoint, every member of a
  cluster holds the share \<open>len / N\<close> of its cluster, and every asset that has left the
  clusters holds \<open>1 / N\<close>.
\<close>

definition share_inv :: "nat \<Rightarrow> int list list \<Rightarrow> series \<Rightarrow> bool" where
  "share_inv N cs w \<longleftrightarrow>
     distinct (concat cs) \<and> set (concat cs) \<subseteq> {0 ..< int N} \<and>
     (\<forall>p < length w.
        (\<forall>c \<in> set cs. fst (w ! p) \<in> set c \<longrightarrow> snd (w ! p) = Fin (real (length c) / real N))
      \<and> (fst (w ! p) \<notin> set (concat cs) \<longrightarrow> snd (w ! p) = Fin (1 / real N)))"

subsection \<open>The entry point \<open>optimize\<close>\<close>

text \<open>
  The price table as the checks at the start of \<open>optimize\<close> see it: whether the object is
  a \<open>DataFrame\<close> and whether its index is a \<open>DatetimeIndex\<close>. \<open>None\<close> in place of the table
  skips both checks, and the call \<open>AssetPrices.pct_change()\<close> then raises
  \<open>AttributeError\<close>.
\<close>

record price_table =
  is_DataFrame :: bool
  index_is_DatetimeIndex :: bool

definition validate :: "price_table option \<Rightarrow> error option" where
  "validate AssetPrices =
     (case AssetPrices of
        None \<Rightarrow> None
      | Some t \<Rightarrow>
          if \<not> is_DataFrame t then Some ValueError
          else if \<not> index_is_DatetimeIndex t then Some ValueError
          else None)"

text \<open>
  What \<open>optimize\<close> delegates, taken as given: the columns of the return table after
  \<open>pct_change\<close> and the two \<open>dropna\<close> calls (pandas), the risk matrix of every estimator of
  \<open>CovMatrix\<close> (module \<open>modfin.Analysis\<close>, not among the sources), the outcome of
  \<open>scipy_linkage\<close> on the distance matrix for a linkage method, which may raise, and the
  depth of recursion the interpreter allows.
\<close>

record collaborators =
  asset_names :: "string list"
  Sample :: cov
  SampleSemi :: cov
  BasicShrinkage :: cov
  LedoitWolf :: cov
  Oracle :: cov
  scipy_linkage :: "string \<Rightarrow> error + linkage"
  recursion_limit :: nat

text \<open>
  \<open>scipy_linkage(squareform(distance_matrix), method)\<close>. For fewer than two assets
  \<open>squareform\<close> returns the empty vector, and SciPy's \<open>linkage\<close> raises \<open>ValueError\<close> on an
  empty distance vector.
\<close>

definition linkage_of :: "collaborators \<Rightarrow> string \<Rightarrow> error + linkage" where
  "linkage_of ext method =
     (if length (asset_names ext) < 2 then Inl (ValueErrorIn SciPy)
      else scipy_linkage ext method)"

definition getattr :: "hrp_object \<Rightarrow> string \<Rightarrow> error + pyval" where
  "getattr self name = (case self name of None \<Rightarrow> Inl AttributeError | Some v \<Rightarrow> Inr v)"

definition risk_matrix_of :: "collaborators \<Rightarrow> pyval \<Rightarrow> error + cov" where
  "risk_matrix_of ext RiskMetrics =
     (if RiskMetrics = PyStr ''variance'' then Inr (Sample ext)
      else if RiskMetrics = PyStr ''semivariance'' then Inr (SampleSemi ext)
      else if RiskMetrics = PyStr ''shrinkage'' then Inr (BasicShrinkage ext)
      else if RiskMetrics = PyStr ''letoidwolf'' then Inr (LedoitWolf ext)
      else if RiskMetrics = PyStr ''oas'' then Inr (Oracle ext)
      else Inl UnboundLocalError)"

text \<open>
  \<open>Series.round(8)\<close> rounds half to even on the value scaled by \<open>10^8\<close>; \<open>inf\<close> and \<open>nan\<close>
  stay.
\<close>

definition rint :: "real \<Rightarrow> int" where
  "rint x =
     (let f = \<lfloor>x\<rfloor>
      in if x - of_int f < 1 / 2 then f
         else if 1 / 2 < x - of_int f then f + 1
         else if even f then f else f + 1)"

definition round8 :: "real \<Rightarrow> real" where
  "round8 x = of_int (rint (x * 10 ^ 8)) / 10 ^ 8"

fun round8f :: "fl \<Rightarrow> fl" where
  "round8f (Fin x) = Fin (round8 x)"
| "round8f a = a"

text \<open>
  The last lines of \<open>optimize\<close>. The weights are rounded and divided by their sum
  (\<open>Series.sum\<close> skips \<open>nan\<close>, and is \<open>0.0\<close> when nothing is left). Line 192 assigns the
  string \<open>'nan'\<close> to every entry that equals zero: the \<open>Series\<close> then holds floats and
  strings, and the string is no missing value. The columns are selected in the order of
  \<open>asset_names\<close> (every column of a label, \<open>KeyError\<close> for a label that is no column),
  and \<open>dropna(axis="columns")\<close> drops the columns whose value is the float \<open>nan\<close>.
\<close>

datatype cell = Number fl | Text string

definition postprocess :: "string list \<Rightarrow> (string \<times> fl) list \<Rightarrow> error + (string \<times> cell) list" where
  "postprocess names Portifolio =
     (let rounded = map (\<lambda>(a, x). (a, round8f x)) Portifolio;
          total = fsum (filter (\<lambda>x. x \<noteq> NaN) (map snd rounded));
          normalized = map (\<lambda>(a, x). (a, fdiv x total)) rounded;
          marked = map (\<lambda>(a, x). (a, if x = Fin 0 then Text ''nan'' else Number x)) normalized
      in if \<not> set names \<subseteq> fst ` set marked then Inl KeyError
         else Inr [(a, c). a \<leftarrow> names, (b, c) \<leftarrow> marked, b = a, c \<noteq> Number NaN])"

text \<open>
  \<open>optimize\<close> returns the instance as the call leaves it (the assignment to
  \<open>self.clusters\<close> stays when a later step raises) and the outcome: the exception or the
  one-row table, the list of its (column, value) entries.
\<close>

definition optimize ::
    "collaborators \<Rightarrow> hrp_object \<Rightarrow> price_table option \<Rightarrow> hrp_object \<times> (error + (string \<times> cell) list)" where
  "optimize ext self AssetPrices =
     (case validate AssetPrices of
        Some e \<Rightarrow> (self, Inl e)
      | None \<Rightarrow>
     (case AssetPrices of
        None \<Rightarrow> (self, Inl AttributeError)
      | Some t \<Rightarrow>
     (case getattr self ''_RiskMetrics'' of
        Inl e \<Rightarrow> (self, Inl e)
      | Inr metric \<Rightarrow>
     (case risk_matrix_of ext metric of
        Inl e \<Rightarrow> (self, Inl e)
      | Inr risk_matrix \<Rightarrow>
     (case getattr self ''_Method'' of
        Inl e \<Rightarrow> (self, Inl e)
      | Inr method \<Rightarrow>
     (case linkage_of ext (case method of PyStr m \<Rightarrow> m | _ \<Rightarrow> []) of
        Inl e \<Rightarrow> (self, Inl e)
      | Inr clusters \<Rightarrow>
          let self = self(''clusters'' \<mapsto> PyLinkage clusters);
              num_assets = int (length (asset_names ext))
          in (self,
              case getQuasiDiag (recursion_limit ext) clusters num_assets (2 * num_assets - 2) of
                Inl e \<Rightarrow> Inl e
              | Inr ordered_indices \<Rightarrow>
                  (case getRecBipart risk_matrix (asset_names ext) ordered_indices of
                     Inl e \<Rightarrow> Inl e
                   | Inr Portifolio \<Rightarrow> postprocess (asset_names ext) Portifolio))))))))"


subsection \<open>\<open>plot\<close>\<close>





subsection \<open>The weight of an asset as a product of allocation factors\<close>

text \<open>
  The weight that the bisection of a cluster leaves to one of its members, relative to
  the weight of the cluster: the product of the allocation factors on the way from the
  cluster down to the member, \<open>a\<close> at every split that has the member in the left half
  and \<open>1 - a\<close> at every split that has it in the right half. It is stated over the
  reals, for the runs in which every cluster variance is a number.
\<close>

definition variance_of :: "cov \<Rightarrow> int list \<Rightarrow> real" where
  "variance_of cv c = (case getClusterVar cv c of Inr (Fin x) \<Rightarrow> x | _ \<Rightarrow> 0)"

definition split_factor :: "cov \<Rightarrow> int list \<Rightarrow> real" where
  "split_factor cv c =
     1 - variance_of cv (take (length c div 2) c)
           / (variance_of cv (take (length c div 2) c) + variance_of cv (drop (length c div 2) c))"

function path_weight :: "cov \<Rightarrow> int list \<Rightarrow> int \<Rightarrow> real" where
  "path_weight cv c k =
     (if length c \<le> 1 then 1
      else if k \<in> set (take (length c div 2) c)
        then split_factor cv c * path_weight cv (take (length c div 2) c) k
        else (1 - split_factor cv c) * path_weight cv (drop (length c div 2) c) k)"
  by pat_completeness auto
termination
  by (relation "measure (\<lambda>(cv, c, k). length c)") auto

text \<open>
  The clusters of every pass of the loop have a positive cluster variance.
\<close>

definition positive_variances :: "cov \<Rightarrow> int list list \<Rightarrow> bool" where
  "positive_variances cv cs \<longleftrightarrow>
     (\<forall>n. \<forall>h \<in> set ((bisection ^^ Suc n) cs). \<exists>x. 0 < x \<and> getClusterVar cv h = Inr (Fin x))"

text \<open>
  The numbers of a returned table: the cells that hold a float other than \<open>inf\<close> and \<open>nan\<close>,
  in the order of the columns.
\<close>

definition numbers :: "(string \<times> cell) list \<Rightarrow> real list" where
  "numbers table = concat (map (\<lambda>(a, c). case c of Number (Fin x) \<Rightarrow> [x] | _ \<Rightarrow> []) table)"

section \<open>Properties\<close>

subsection \<open>The constructor accepts exactly the names of its lists\<close>

text \<open>
  Claim C7, as the code has it. Construction raises \<open>ValueError\<close> if and only if the
  lower-cased risk-metric name is not one of \<open>variance\<close>, \<open>semivariance\<close>, \<open>shrinkage\<close>,
  \<open>letoidwolf\<close>, \<open>oas\<close>, or the lower-cased linkage-method name is not one of \<open>ward\<close>,
  \<open>single\<close>, \<open>average\<close>, \<open>complete\<close>, \<open>median\<close>, \<open>weighted\<close>, \<open>centroid\<close>. Otherwise the
  instance is built with \<open>clusters\<close> set to \<open>None\<close> and the two lower-cased names stored;
  nothing else is computed.
\<close>

theorem init_accepts_iff:
  "init RiskMetrics Method =
     (if lower RiskMetrics \<in> {''variance'', ''semivariance'', ''shrinkage'', ''letoidwolf'', ''oas''}
         \<and> lower Method \<in> {''ward'', ''single'', ''average'', ''complete'', ''median'',
               ''weighted'', ''centroid''}
      then Inr [''clusters'' \<mapsto> PyNone, ''_RiskMetrics'' \<mapsto> PyStr (lower RiskMetrics),
                ''_Method'' \<mapsto> PyStr (lower Method)]
      else Inl ValueError)"
  by (simp add: init_def risk_metric_names_def method_names_def)

text \<open>
  The names \<open>shrinkage-LedoitWolf\<close> and \<open>shrinkage-OAS\<close> of the specification are
  rejected, and the names \<open>letoidwolf\<close> and \<open>Variance\<close>, which the specification does not
  list, are accepted.
\<close>

theorem init_names_counterexample:
  "init ''shrinkage-LedoitWolf'' ''single'' = Inl ValueError
   \<and> init ''shrinkage-OAS'' ''single'' = Inl ValueError
   \<and> init ''letoidwolf'' ''single'' \<noteq> Inl ValueError
   \<and> init ''Variance'' ''Single'' \<noteq> Inl ValueError"
  by (simp add: init_def risk_metric_names_def method_names_def lower_def lower_char_def)

subsection \<open>Bisection produces pairs of non-empty halves\<close>

lemma bisection_Nil: "bisection [] = []"
  by (simp add: bisection_def)

lemma bisection_Cons: "bisection (c # cs) = halves c @ bisection cs"
  by (simp add: bisection_def py_slice_def halves_def)

lemma bisection_concat: "bisection cs = concat (map halves cs)"
  by (induction cs) (simp_all add: bisection_Nil bisection_Cons)

lemma even_length_bisection: "even (length (bisection cs))"
  by (induction cs) (simp_all add: bisection_Nil bisection_Cons halves_def)

lemma bisection_nonempty: "[] \<notin> set (bisection cs)"
  by (induction cs) (auto simp: bisection_Nil bisection_Cons halves_def)

lemma traverse_Inl: "traverse f xs = Inl e \<Longrightarrow> \<exists>x \<in> set xs. f x = Inl e"
  by (induction xs) (auto split: sum.splits)

lemma getClusterVar_error: "getClusterVar cv l = Inl e \<Longrightarrow> e = IndexError Iloc"
  by (auto simp: getClusterVar_def iloc_def position_def
      split: sum.splits if_splits dest!: traverse_Inl)

lemma alloc_pairs_even:
  "even (length ps) \<Longrightarrow> alloc_pairs cv ps w \<noteq> Inl (IndexError ClusterList)"
proof (induction cv ps w rule: alloc_pairs.induct)
  case (1 cv w)
  then show ?case by simp
next
  case (2 cv l w)
  then show ?case by simp
next
  case (3 cv l r rest w)
  show ?case
  proof (cases "getClusterVar cv l")
    case (Inl e)
    then show ?thesis using getClusterVar_error [OF Inl] by auto
  next
    case vl: (Inr vl)
    show ?thesis
    proof (cases "getClusterVar cv r")
      case (Inl e)
      then show ?thesis using getClusterVar_error [OF Inl] vl by auto
    next
      case vr: (Inr vr)
      from "3.prems" have "even (length rest)" by simp
      from "3.IH" [OF vl vr refl this] show ?thesis
        using vl vr by (simp add: Let_def)
    qed
  qed
qed

lemma while_clusters_no_list_error:
  "while_clusters cv cs w \<noteq> Inl (IndexError ClusterList)"
proof (induction cv cs w rule: while_clusters.induct)
  case (1 cv cs w)
  show ?case
  proof (cases "cs = []")
    case True
    then show ?thesis by simp
  next
    case False
    show ?thesis
    proof (cases "alloc_pairs cv (bisection cs) w")
      case (Inl e)
      with alloc_pairs_even [OF even_length_bisection, of cv cs w] False
      show ?thesis by auto
    next
      case (Inr w')
      with "1.IH" [OF False Inr] False show ?thesis by simp
    qed
  qed
qed

text \<open>
  Claim C10. Whatever the list of clusters, the list after a bisection step has even
  length and has no empty member: every cluster of more than one member gives its two
  halves, every other cluster gives nothing. So the reads at \<open>subcluster\<close> and
  \<open>subcluster + 1\<close> never leave the list, neither in one pass of the pairing loop nor in
  the whole \<open>while\<close> loop.
\<close>

theorem bisection_pairs_in_bounds:
  "even (length (bisection cs)) \<and> [] \<notin> set (bisection cs)
   \<and> bisection cs = concat (map (\<lambda>c. if 1 < length c
          then [take (length c div 2) c, drop (length c div 2) c] else []) cs)
   \<and> alloc_pairs cv (bisection cs) w \<noteq> Inl (IndexError ClusterList)
   \<and> while_clusters cv cs w \<noteq> Inl (IndexError ClusterList)"
  using even_length_bisection [of cs] bisection_nonempty [of cs] bisection_concat [of cs]
    alloc_pairs_even [OF even_length_bisection, of cv cs w]
    while_clusters_no_list_error [of cv cs w]
  by (simp add: halves_def [abs_def])


subsection \<open>The quasi-diagonal order is a permutation\<close>

lemma getQuasiDiag_more_depth:
  "getQuasiDiag d c n i = Inr xs \<Longrightarrow> d \<le> d' \<Longrightarrow> getQuasiDiag d' c n i = Inr xs"
proof (induction d arbitrary: d' i xs)
  case 0
  then show ?case by simp
next
  case (Suc d)
  then obtain e where d': "d' = Suc e" and le: "d \<le> e"
    by (cases d') auto
  show ?case
  proof (cases "i < n \<or> length c \<le> nat (i - n)")
    case True
    with Suc.prems(1) show ?thesis by (auto simp: d' split: if_splits)
  next
    case False
    with Suc.prems(1) obtain ls rs where
      l: "getQuasiDiag d c n (fst (c ! nat (i - n))) = Inr ls" and
      r: "getQuasiDiag d c n (snd (c ! nat (i - n))) = Inr rs" and
      xs: "xs = ls @ rs"
      by (auto simp: Let_def split: sum.splits)
    from Suc.IH [OF l le] Suc.IH [OF r le] False xs show ?thesis
      by (simp add: d' Let_def)
  qed
qed

lemma getQuasiDiag_defined:
  assumes "bounded_children c n"
  shows "0 \<le> i \<Longrightarrow> i < n + int (length c) \<Longrightarrow> nat i < d \<Longrightarrow> \<exists>xs. getQuasiDiag d c n i = Inr xs"
proof (induction d arbitrary: i)
  case 0
  then show ?case by simp
next
  case (Suc d)
  show ?case
  proof (cases "i < n")
    case True
    then show ?thesis by simp
  next
    case False
    define k where "k = nat (i - n)"
    have k: "k < length c" and i: "i = n + int k"
      using False Suc.prems by (auto simp: k_def)
    from assms k have b: "0 \<le> fst (c ! k)" "fst (c ! k) < n + int k"
      "0 \<le> snd (c ! k)" "snd (c ! k) < n + int k"
      by (auto simp: bounded_children_def)
    have "nat (fst (c ! k)) < d" "nat (snd (c ! k)) < d"
      using b Suc.prems i by auto
    with Suc.IH [of "fst (c ! k)"] Suc.IH [of "snd (c ! k)"] b k
    obtain ls rs where "getQuasiDiag d c n (fst (c ! k)) = Inr ls"
      "getQuasiDiag d c n (snd (c ! k)) = Inr rs"
      by fastforce
    then show ?thesis using False k by (simp add: k_def [symmetric] Let_def)
  qed
qed

lemma leaves_eq:
  "getQuasiDiag d c n i = Inr xs \<Longrightarrow> bounded_children c n \<Longrightarrow> 0 \<le> i \<Longrightarrow>
   i < n + int (length c) \<Longrightarrow> leaves c n i = mset xs"
proof -
  assume a: "getQuasiDiag d c n i = Inr xs" "bounded_children c n" "0 \<le> i" "i < n + int (length c)"
  obtain ys where ys: "getQuasiDiag (Suc (nat i)) c n i = Inr ys"
    using getQuasiDiag_defined [OF a(2,3,4), of "Suc (nat i)"] by auto
  have "xs = ys"
  proof (cases "d \<le> Suc (nat i)")
    case True
    from getQuasiDiag_more_depth [OF a(1) True] ys show ?thesis by simp
  next
    case False
    then have "Suc (nat i) \<le> d" by simp
    from getQuasiDiag_more_depth [OF ys this] a(1) show ?thesis by simp
  qed
  then show ?thesis unfolding leaves_def ys by simp
qed

lemma leaves_leaf: "i < n \<Longrightarrow> leaves c n i = {#i#}"
  by (simp add: leaves_def)

lemma leaves_node:
  assumes "bounded_children c n" and "k < length c"
  shows "leaves c n (n + int k) = leaves c n (fst (c ! k)) + leaves c n (snd (c ! k))"
proof -
  from assms have b: "0 \<le> fst (c ! k)" "fst (c ! k) < n + int k"
    "0 \<le> snd (c ! k)" "snd (c ! k) < n + int k"
    by (auto simp: bounded_children_def)
  have n: "0 \<le> n + int k" using b by linarith
  obtain xs where xs: "getQuasiDiag (Suc (nat (n + int k))) c n (n + int k) = Inr xs"
    using getQuasiDiag_defined [OF assms(1) n, of "Suc (nat (n + int k))"] assms(2) by auto
  then obtain ls rs where
    l: "getQuasiDiag (nat (n + int k)) c n (fst (c ! k)) = Inr ls" and
    r: "getQuasiDiag (nat (n + int k)) c n (snd (c ! k)) = Inr rs" and
    e: "xs = ls @ rs"
    using assms(2) by (auto simp: Let_def split: sum.splits if_splits)
  have "leaves c n (fst (c ! k)) = mset ls"
    using leaves_eq [OF l assms(1) b(1)] b(2) assms(2) by simp
  moreover have "leaves c n (snd (c ! k)) = mset rs"
    using leaves_eq [OF r assms(1) b(3)] b(4) assms(2) by simp
  moreover have "leaves c n (n + int k) = mset xs"
    unfolding leaves_def xs by simp
  ultimately show ?thesis by (simp add: e)
qed


lemma sum_singletons: "finite A \<Longrightarrow> (\<Sum>i \<in> A. {#i#}) = mset_set A"
  by (induction A rule: finite_induct) simp_all

lemma children_append: "children (xs @ ys) = children xs @ children ys"
  by (simp add: children_def)

lemma children_take_Suc:
  "k < length c \<Longrightarrow> children (take (Suc k) c) = children (take k c) @ [fst (c ! k), snd (c ! k)]"
  by (simp add: take_Suc_conv_app_nth children_append) (simp add: children_def case_prod_beta)

lemma children_fresh:
  assumes "distinct (children c)" and "k < length c"
  shows "fst (c ! k) \<notin> set (children (take k c))"
    and "snd (c ! k) \<notin> set (children (take k c))"
    and "fst (c ! k) \<noteq> snd (c ! k)"
proof -
  have "c = take (Suc k) c @ drop (Suc k) c" by simp
  then have "children c = children (take (Suc k) c) @ children (drop (Suc k) c)"
    by (metis children_append)
  with assms(1) have "distinct (children (take (Suc k) c))" by simp
  then have d: "distinct (children (take k c) @ [fst (c ! k), snd (c ! k)])"
    by (simp add: children_take_Suc [OF assms(2)])
  from d show "fst (c ! k) \<notin> set (children (take k c))"
    and "snd (c ! k) \<notin> set (children (take k c))"
    and "fst (c ! k) \<noteq> snd (c ! k)"
    by auto
qed

lemma children_take_bound:
  assumes "bounded_children c n" and "k \<le> length c" and "x \<in> set (children (take k c))"
  shows "x < n + int k"
proof -
  from assms(3) obtain p where "p \<in> set (take k c)" "x = fst p \<or> x = snd p"
    by (auto simp: children_def)
  then obtain j where j: "j < k" "x = fst (c ! j) \<or> x = snd (c ! j)"
    using assms(2) by (auto simp: in_set_conv_nth)
  then have "j < length c" using assms(2) by simp
  with assms(1) have "fst (c ! j) < n + int j" "snd (c ! j) < n + int j"
    by (simp_all add: bounded_children_def)
  with j show ?thesis by auto
qed

lemma roots_sum:
  assumes b: "bounded_children c n" and d: "distinct (children c)"
  shows "k \<le> length c \<Longrightarrow>
    (\<Sum>i \<in> {0 ..< n + int k} - set (children (take k c)). leaves c n i) = mset_set {0 ..< n}"
proof (induction k)
  case 0
  have "(\<Sum>i \<in> {0 ..< n}. leaves c n i) = (\<Sum>i \<in> {0 ..< n}. {#i#})"
    by (rule sum.cong) (simp_all add: leaves_leaf)
  then show ?case by (simp add: children_def sum_singletons)
next
  case (Suc k)
  then have k: "k < length c" by simp
  let ?l = "fst (c ! k)" and ?r = "snd (c ! k)"
  let ?R = "{0 ..< n + int k} - set (children (take k c))"
  from b k have bd: "0 \<le> ?l" "?l < n + int k" "0 \<le> ?r" "?r < n + int k"
    by (auto simp: bounded_children_def)
  note fr = children_fresh [OF d k]
  have l: "?l \<in> ?R" and r: "?r \<in> ?R - {?l}"
    using bd fr by auto
  have fin: "finite ?R" by simp
  have new: "{0 ..< n + int (Suc k)} - set (children (take (Suc k) c))
               = insert (n + int k) (?R - {?l} - {?r})"
    using bd children_take_bound [OF b less_imp_le [OF k], of "n + int k"]
    by (auto simp: children_take_Suc [OF k])
  have notin: "n + int k \<notin> ?R - {?l} - {?r}" by simp
  have "(\<Sum>i \<in> ?R. leaves c n i)
          = leaves c n ?l + (leaves c n ?r + (\<Sum>i \<in> ?R - {?l} - {?r}. leaves c n i))"
    using sum.remove [OF fin l, of "leaves c n"]
      sum.remove [OF _ r, of "leaves c n"] by simp
  moreover have "(\<Sum>i \<in> insert (n + int k) (?R - {?l} - {?r}). leaves c n i)
          = leaves c n (n + int k) + (\<Sum>i \<in> ?R - {?l} - {?r}. leaves c n i)"
    using notin by (subst sum.insert) simp_all
  ultimately have "(\<Sum>i \<in> insert (n + int k) (?R - {?l} - {?r}). leaves c n i)
      = (\<Sum>i \<in> ?R. leaves c n i)"
    by (simp add: leaves_node [OF b k] add.assoc)
  with Suc.IH k show ?case by (simp only: new)
qed

lemma children_all:
  assumes b: "bounded_children c n" and d: "distinct (children c)"
    and n: "int (length c) = n - 1"
  shows "set (children c) = {0 ..< 2 * n - 2}"
proof -
  have len: "length (children c) = 2 * length c"
    by (induction c) (simp_all add: children_def case_prod_beta)
  have sub: "set (children c) \<subseteq> {0 ..< 2 * n - 2}"
  proof
    fix x assume "x \<in> set (children c)"
    then obtain p where "p \<in> set c" "x = fst p \<or> x = snd p"
      by (auto simp: children_def)
    then obtain k where "k < length c" "x = fst (c ! k) \<or> x = snd (c ! k)"
      by (auto simp: in_set_conv_nth)
    with b n show "x \<in> {0 ..< 2 * n - 2}"
      by (auto simp: bounded_children_def)
  qed
  have "card (set (children c)) = 2 * length c"
    using d len by (simp add: distinct_card)
  moreover have "card {0 ..< 2 * n - 2} = 2 * length c"
    using n by simp
  ultimately show ?thesis
    using sub by (simp add: card_subset_eq)
qed

lemma root_leaves:
  assumes "merge_tree c n"
  shows "leaves c n (2 * n - 2) = mset_set {0 ..< n}"
proof -
  from assms have b: "bounded_children c n" and d: "distinct (children c)"
    and n: "int (length c) = n - 1" and n2: "2 \<le> n"
    by (auto simp: merge_tree_def)
  have "{0 ..< n + int (length c)} - set (children (take (length c) c)) = {2 * n - 2}"
    using children_all [OF b d n] n n2 by auto
  with roots_sum [OF b d, of "length c"] show ?thesis by simp
qed

lemma perm_of_mset_set:
  assumes "mset xs = mset_set A" and "finite A"
  shows "distinct xs \<and> set xs = A \<and> length xs = card A"
proof -
  have "set xs = A"
    using assms by (metis finite_set_mset_mset_set set_mset_mset)
  moreover have "distinct xs"
    using assms \<open>set xs = A\<close> by (simp add: distinct_count_atmost_1)
  moreover have "length xs = card A"
    using assms by (metis size_mset size_mset_set)
  ultimately show ?thesis by simp
qed


lemma getQuasiDiag_nonempty: "getQuasiDiag d c n i = Inr xs \<Longrightarrow> xs \<noteq> []"
proof (induction d arbitrary: i xs)
  case 0
  then show ?case by simp
next
  case (Suc d)
  then show ?case
    by (auto simp: Let_def split: if_splits sum.splits)
qed

lemma leaves_nonempty:
  assumes "bounded_children c n" and "0 \<le> i" and "i < n + int (length c)"
  shows "1 \<le> size (leaves c n i)"
proof -
  obtain xs where xs: "getQuasiDiag (Suc (nat i)) c n i = Inr xs"
    using getQuasiDiag_defined [OF assms, of "Suc (nat i)"] by auto
  from getQuasiDiag_nonempty [OF xs] have "1 \<le> length xs"
    by (cases xs) simp_all
  then show ?thesis unfolding leaves_def xs by simp
qed

lemma depth_by_leaves:
  assumes b: "bounded_children c n"
  shows "0 \<le> i \<Longrightarrow> i < n + int (length c) \<Longrightarrow> size (leaves c n i) \<le> d \<Longrightarrow>
         \<exists>xs. getQuasiDiag d c n i = Inr xs"
proof (induction d arbitrary: i)
  case 0
  with leaves_nonempty [OF b, of i] show ?case by simp
next
  case (Suc d)
  show ?case
  proof (cases "i < n")
    case True
    then show ?thesis by simp
  next
    case False
    define k where "k = nat (i - n)"
    have k: "k < length c" and i: "i = n + int k"
      using False Suc.prems by (auto simp: k_def)
    from b k have bd: "0 \<le> fst (c ! k)" "fst (c ! k) < n + int (length c)"
      "0 \<le> snd (c ! k)" "snd (c ! k) < n + int (length c)"
      by (auto simp: bounded_children_def)
    have "size (leaves c n (fst (c ! k))) + size (leaves c n (snd (c ! k))) \<le> Suc d"
      using Suc.prems(3) by (simp add: i leaves_node [OF b k])
    with leaves_nonempty [OF b bd(1,2)] leaves_nonempty [OF b bd(3,4)]
    have "size (leaves c n (fst (c ! k))) \<le> d" "size (leaves c n (snd (c ! k))) \<le> d"
      by linarith+
    with Suc.IH [OF bd(1,2)] Suc.IH [OF bd(3,4)]
    obtain ls rs where "getQuasiDiag d c n (fst (c ! k)) = Inr ls"
      "getQuasiDiag d c n (snd (c ! k)) = Inr rs"
      by blast
    then show ?thesis using False k by (simp add: k_def [symmetric] Let_def)
  qed
qed

text \<open>
  A record that merges a node twice satisfies the bounds on the child ids and is no
  tree; the order it gives repeats a leaf and misses another.
\<close>

lemma getQuasiDiag_repeated_child: "getQuasiDiag 2 [(0, 0)] 2 2 = Inr [0, 0]"
  by code_simp

text \<open>
  Claim C2. For a merge tree over \<open>n \<ge> 2\<close> leaves (\<open>n - 1\<close> records, the children of record
  \<open>k\<close> are nodes with ids from \<open>0\<close> and below \<open>n + k\<close>, no node is merged twice),
  \<open>_getQuasiDiag\<close> on the root \<open>2n - 2\<close> returns, when the interpreter allows \<open>n\<close> nested
  calls, a list of length \<open>n\<close> that holds each of \<open>0, \<dots>, n - 1\<close> exactly once.
\<close>

theorem getQuasiDiag_permutation:
  assumes "merge_tree cluster n" and "nat n \<le> depth"
  shows "\<exists>xs. getQuasiDiag depth cluster n (2 * n - 2) = Inr xs
           \<and> length xs = nat n \<and> distinct xs \<and> set xs = {0 ..< n}"
proof -
  from assms(1) have b: "bounded_children cluster n"
    and len: "int (length cluster) = n - 1" and n2: "2 \<le> n"
    by (auto simp: merge_tree_def)
  have root: "0 \<le> 2 * n - 2" "2 * n - 2 < n + int (length cluster)"
    using len n2 by auto
  have lv: "leaves cluster n (2 * n - 2) = mset_set {0 ..< n}"
    by (rule root_leaves [OF assms(1)])
  then have "size (leaves cluster n (2 * n - 2)) \<le> depth"
    using assms(2) by simp
  from depth_by_leaves [OF b root this]
  obtain xs where xs: "getQuasiDiag depth cluster n (2 * n - 2) = Inr xs" by blast
  from leaves_eq [OF xs b root] lv have "mset xs = mset_set {0 ..< n}" by simp
  from perm_of_mset_set [OF this] xs show ?thesis by simp
qed

theorem getQuasiDiag_permutation_witness:
  "merge_tree [(0, 2), (1, 3)] 3 \<and> nat 3 \<le> (3::nat)
   \<and> getQuasiDiag 3 [(0, 2), (1, 3)] 3 (2 * 3 - 2) = Inr [1, 0, 2]
   \<and> (\<exists>xs. getQuasiDiag 3 [(0, 2), (1, 3)] 3 (2 * 3 - 2) = Inr xs
           \<and> length xs = nat 3 \<and> distinct xs \<and> set xs = {0 ..< 3})"
proof -
  have m: "merge_tree [(0, 2), (1, 3)] 3"
    by (simp add: merge_tree_def bounded_children_def children_def less_Suc_eq numeral_2_eq_2)
  have d: "nat 3 \<le> (3::nat)" by simp
  have q: "getQuasiDiag 3 [(0, 2), (1, 3)] 3 (2 * 3 - 2) = Inr [1, 0, 2]"
    by code_simp
  from getQuasiDiag_permutation [OF m d] m d q show ?thesis by blast
qed

subsection \<open>The loop of the recursive bisection and the specification's words\<close>

lemma scale_at_keys: "map fst (scale_at c a w) = map fst w"
  by (induction w) (auto simp: scale_at_def)

lemma scale_at_length: "length (scale_at c a w) = length w"
  by (simp add: scale_at_def)

lemma scale_at_nth:
  "p < length w \<Longrightarrow>
   scale_at c a w ! p = (if fst (w ! p) \<in> set c then (fst (w ! p), fmul (snd (w ! p)) a) else w ! p)"
  by (simp add: scale_at_def case_prod_beta)

lemma alloc_pairs_keys: "alloc_pairs cv ps w = Inr w' \<Longrightarrow> map fst w' = map fst w"
proof (induction cv ps w arbitrary: w' rule: alloc_pairs.induct)
  case (3 cv l r rest w)
  from "3.prems" obtain vl vr where
    vl: "getClusterVar cv l = Inr vl" and vr: "getClusterVar cv r = Inr vr" and
    rest: "alloc_pairs cv rest (scale_at r (fsub (Fin 1) (alloc_factor vl vr))
             (scale_at l (alloc_factor vl vr) w)) = Inr w'"
    by (auto simp: Let_def split: sum.splits)
  from "3.IH" [OF vl vr refl rest] show ?case by (simp add: scale_at_keys)
qed simp_all

lemma alloc_pairs_length: "alloc_pairs cv ps w = Inr w' \<Longrightarrow> length w' = length w"
  using alloc_pairs_keys [of cv ps w w'] by (metis length_map)

lemma bisection_parents:
  "bisection cs =
     concat (map (\<lambda>c. [take (length c div 2) c, drop (length c div 2) c]) (parents cs))"
  by (induction cs) (simp_all add: bisection_Nil bisection_Cons halves_def parents_def)

lemma concat_bisection: "concat (bisection cs) = concat (parents cs)"
  by (induction cs) (simp_all add: bisection_Nil bisection_Cons halves_def parents_def)

lemma set_concat_parents: "set (concat (parents cs)) \<subseteq> set (concat cs)"
  by (auto simp: parents_def)

lemma distinct_concat_parents: "distinct (concat cs) \<Longrightarrow> distinct (concat (parents cs))"
proof (induction cs)
  case Nil
  then show ?case by (simp add: parents_def)
next
  case (Cons c cs)
  have "parents (c # cs) = (if 1 < length c then c # parents cs else parents cs)"
    by (simp add: parents_def)
  with Cons set_concat_parents [of cs] show ?case by auto
qed

lemma distinct_concat_bisection: "distinct (concat cs) \<Longrightarrow> distinct (concat (bisection cs))"
  by (simp add: concat_bisection distinct_concat_parents)

lemma spec_pairs_Cons:
  "spec_pairs (c # cs) =
     (if 1 < length c then (take (length c div 2) c, drop (length c div 2) c) # spec_pairs cs
      else spec_pairs cs)"
  by (simp add: spec_pairs_def)

lemma spec_pairs_members:
  "(l, r) \<in> set (spec_pairs cs) \<Longrightarrow> set l \<subseteq> set (concat cs) \<and> set r \<subseteq> set (concat cs)"
  by (auto simp: spec_pairs_def dest: in_set_takeD in_set_dropD)

lemma spec_weight_outside:
  "\<forall>((l, r), a) \<in> set ps. k \<notin> set l \<and> k \<notin> set r \<Longrightarrow> spec_weight ps k x = x"
  by (induction ps k x rule: spec_weight.induct) auto

lemma spec_weight_outside_pairs:
  assumes "k \<notin> set (concat cs)" and "length factors = length (spec_pairs cs)"
  shows "spec_weight (zip (spec_pairs cs) factors) k x = x"
proof (rule spec_weight_outside, clarify)
  fix l r a assume "((l, r), a) \<in> set (zip (spec_pairs cs) factors)"
  then have "(l, r) \<in> set (spec_pairs cs)" by (rule set_zip_leftD)
  from spec_pairs_members [OF this] assms(1) show "k \<notin> set l \<and> k \<notin> set r" by auto
qed

lemma traverse_length: "traverse f xs = Inr ys \<Longrightarrow> length ys = length xs"
  by (induction xs arbitrary: ys) (auto split: sum.splits)

lemma level_refines:
  "distinct (concat cs) \<Longrightarrow> alloc_pairs cv (bisection cs) w = spec_level cv cs w"
proof (induction cs arbitrary: w)
  case Nil
  show ?case
    by (simp add: bisection_Nil spec_level_def spec_pairs_def case_prod_beta)
next
  case (Cons c cs)
  from Cons.prems have dcs: "distinct (concat cs)" by simp
  show ?case
  proof (cases "1 < length c")
    case False
    then have e1: "bisection (c # cs) = bisection cs" and e2: "spec_pairs (c # cs) = spec_pairs cs"
      by (simp_all add: bisection_Cons halves_def spec_pairs_Cons)
    have "spec_level cv (c # cs) w = spec_level cv cs w"
      unfolding spec_level_def e2 ..
    with Cons.IH [OF dcs, of w] show ?thesis by (simp only: e1)
  next
    case True
    define l where "l = take (length c div 2) c"
    define r where "r = drop (length c div 2) c"
    have bis: "bisection (c # cs) = l # r # bisection cs"
      using True by (simp add: bisection_Cons halves_def l_def r_def)
    have sp: "spec_pairs (c # cs) = (l, r) # spec_pairs cs"
      using True by (simp add: spec_pairs_Cons l_def r_def)
    have c: "c = l @ r" by (simp add: l_def r_def)
    from Cons.prems c have lr: "set l \<inter> set r = {}"
      and lcs: "set l \<inter> set (concat cs) = {}" and rcs: "set r \<inter> set (concat cs) = {}"
      by auto
    show ?thesis
    proof (cases "getClusterVar cv l")
      case (Inl e)
      then show ?thesis by (simp add: bis sp spec_level_def spec_factor_def)
    next
      case vl: (Inr vl)
      show ?thesis
      proof (cases "getClusterVar cv r")
        case (Inl e)
        then show ?thesis using vl by (simp add: bis sp spec_level_def spec_factor_def)
      next
        case vr: (Inr vr)
        define a where "a = alloc_factor vl vr"
        let ?w1 = "scale_at r (fsub (Fin 1) a) (scale_at l a w)"
        have fac: "spec_factor cv (l, r) = Inr a"
          by (simp add: spec_factor_def vl vr a_def alloc_factor_def)
        have code: "alloc_pairs cv (bisection (c # cs)) w = alloc_pairs cv (bisection cs) ?w1"
          by (simp add: bis vl vr a_def Let_def)
        show ?thesis
        proof (cases "traverse (spec_factor cv) (spec_pairs cs)")
          case (Inl e)
          then show ?thesis
            using Cons.IH [OF dcs, of ?w1] by (simp add: code sp fac spec_level_def)
        next
          case (Inr factors)
          have len: "length factors = length (spec_pairs cs)"
            by (rule traverse_length [OF Inr])
          have "map (\<lambda>(k, x). (k, spec_weight (zip (spec_pairs cs) factors) k x)) ?w1
              = map (\<lambda>(k, x). (k, spec_weight (((l, r), a) # zip (spec_pairs cs) factors) k x)) w"
          proof (rule nth_equalityI)
            show "length (map (\<lambda>(k, x). (k, spec_weight (zip (spec_pairs cs) factors) k x)) ?w1)
              = length (map (\<lambda>(k, x). (k, spec_weight (((l, r), a) # zip (spec_pairs cs) factors) k x)) w)"
              by (simp add: scale_at_length)
          next
            fix p
            assume "p < length (map (\<lambda>(k, x). (k, spec_weight (zip (spec_pairs cs) factors) k x)) ?w1)"
            then have p: "p < length w" by (simp add: scale_at_length)
            obtain k x where kx: "w ! p = (k, x)" by (cases "w ! p")
            have w1: "?w1 ! p = (k, if k \<in> set l then fmul x a
                                     else if k \<in> set r then fmul x (fsub (Fin 1) a) else x)"
              using p kx lr by (auto simp: scale_at_nth scale_at_length)
            have out: "spec_weight (zip (spec_pairs cs) factors) k y = y"
              if "k \<in> set l \<or> k \<in> set r" for y
              using that lcs rcs by (intro spec_weight_outside_pairs [OF _ len]) auto
            show "map (\<lambda>(k, x). (k, spec_weight (zip (spec_pairs cs) factors) k x)) ?w1 ! p
              = map (\<lambda>(k, x). (k, spec_weight (((l, r), a) # zip (spec_pairs cs) factors) k x)) w ! p"
              using p kx w1 out by (simp add: scale_at_length)
          qed
          then show ?thesis
            using Cons.IH [OF dcs, of ?w1] Inr by (simp add: code sp fac spec_level_def)
        qed
      qed
    qed
  qed
qed

lemma bisection_small: "list_all (\<lambda>c. length c \<le> 1) cs \<Longrightarrow> bisection cs = []"
  by (induction cs) (simp_all add: bisection_Nil bisection_Cons halves_def)

lemma loop_refines:
  "distinct (concat cs) \<Longrightarrow> while_clusters cv cs w = spec_run cv cs w"
proof (induction cv cs w rule: while_clusters.induct)
  case (1 cv cs w)
  show ?case
  proof (cases "list_all (\<lambda>c. length c \<le> 1) cs")
    case True
    then have small: "bisection cs = []" by (rule bisection_small)
    have "while_clusters cv cs w = Inr w"
      by (cases "cs = []") (simp_all add: small)
    moreover have "spec_run cv cs w = Inr w"
      using True by simp
    ultimately show ?thesis by simp
  next
    case False
    then have ne: "cs \<noteq> []" by auto
    have lv: "alloc_pairs cv (bisection cs) w = spec_level cv cs w"
      by (rule level_refines [OF "1.prems"])
    show ?thesis
    proof (cases "spec_level cv cs w")
      case (Inl e)
      have "while_clusters cv cs w = Inl e"
        using ne lv Inl by simp
      moreover have "spec_run cv cs w = Inl e"
        using False Inl by simp
      ultimately show ?thesis by simp
    next
      case (Inr w')
      have ap: "alloc_pairs cv (bisection cs) w = Inr w'"
        using lv Inr by simp
      have "while_clusters cv cs w = while_clusters cv (bisection cs) w'"
        using ne ap by simp
      also have "\<dots> = spec_run cv (bisection cs) w'"
        by (rule "1.IH" [OF ne ap distinct_concat_bisection [OF "1.prems"]])
      also have "\<dots> = spec_run cv cs w"
        using False Inr by (simp add: bisection_concat)
      finally show ?thesis .
    qed
  qed
qed

text \<open>
  Claim C3. On an ordered sequence without repeated indices, \<open>_getRecBipart\<close> computes
  what the specification words: all weights start at 1; every pass splits each cluster of
  more than one member into the halves \<open>[0, len // 2)\<close> and \<open>[len // 2, len)\<close>; every pair of
  halves of one parent gets \<open>a = 1 - var_left / (var_left + var_right)\<close> from the cluster
  variances of its halves; the weights of the left half are multiplied by \<open>a\<close> and the
  weights of the right half by \<open>1 - a\<close>; and the passes go on until no cluster has more
  than one member. The results agree, weights and exceptions alike.
\<close>

theorem getRecBipart_refines:
  assumes "distinct ordered_indices"
  shows "getRecBipart covariance_matrix assets ordered_indices
           = spec_getRecBipart covariance_matrix assets ordered_indices"
proof -
  have "distinct (concat [ordered_indices])" using assms by simp
  from loop_refines [OF this] show ?thesis
    unfolding getRecBipart_def spec_getRecBipart_def Let_def by simp
qed

theorem getRecBipart_refines_witness:
  "distinct [0, 1, 2 :: int]
   \<and> getClusterVar [[Fin 2, Fin 0, Fin 0], [Fin 0, Fin 1, Fin 1], [Fin 0, Fin 1, Fin 3]] [1, 2]
       = Inr (Fin (9 / 8))
   \<and> spec_getRecBipart [[Fin 2, Fin 0, Fin 0], [Fin 0, Fin 1, Fin 1], [Fin 0, Fin 1, Fin 3]]
        [''A'', ''B'', ''C''] [0, 1, 2]
       = Inr [(''A'', Fin (9 / 25)), (''B'', Fin (12 / 25)), (''C'', Fin (4 / 25))]
   \<and> getRecBipart [[Fin 2, Fin 0, Fin 0], [Fin 0, Fin 1, Fin 1], [Fin 0, Fin 1, Fin 3]]
        [''A'', ''B'', ''C''] [0, 1, 2]
       = Inr [(''A'', Fin (9 / 25)), (''B'', Fin (12 / 25)), (''C'', Fin (4 / 25))]"
proof -
  have d: "distinct [0, 1, 2 :: int]" by simp
  have v: "getClusterVar [[Fin 2, Fin 0, Fin 0], [Fin 0, Fin 1, Fin 1], [Fin 0, Fin 1, Fin 3]] [1, 2]
       = Inr (Fin (9 / 8))"
    by code_simp
  have s: "spec_getRecBipart [[Fin 2, Fin 0, Fin 0], [Fin 0, Fin 1, Fin 1], [Fin 0, Fin 1, Fin 3]]
        [''A'', ''B'', ''C''] [0, 1, 2]
       = Inr [(''A'', Fin (9 / 25)), (''B'', Fin (12 / 25)), (''C'', Fin (4 / 25))]"
    by code_simp
  from getRecBipart_refines [OF d,
      of "[[Fin 2, Fin 0, Fin 0], [Fin 0, Fin 1, Fin 1], [Fin 0, Fin 1, Fin 3]]" "[''A'', ''B'', ''C'']"]
    d v s show ?thesis by simp
qed

subsection \<open>One pass over the pairs\<close>

lemma alloc_pairs_outside:
  "alloc_pairs cv ps w = Inr w' \<Longrightarrow> p < length w \<Longrightarrow> fst (w ! p) \<notin> set (concat ps) \<Longrightarrow>
   w' ! p = w ! p"
proof (induction cv ps w arbitrary: w' rule: alloc_pairs.induct)
  case (3 cv l r rest w)
  from "3.prems"(1) obtain vl vr where
    vl: "getClusterVar cv l = Inr vl" and vr: "getClusterVar cv r = Inr vr" and
    rest: "alloc_pairs cv rest (scale_at r (fsub (Fin 1) (alloc_factor vl vr))
             (scale_at l (alloc_factor vl vr) w)) = Inr w'"
    by (auto simp: Let_def split: sum.splits)
  let ?w1 = "scale_at r (fsub (Fin 1) (alloc_factor vl vr)) (scale_at l (alloc_factor vl vr) w)"
  have w1: "?w1 ! p = w ! p"
    using "3.prems"(2,3) by (simp add: scale_at_nth scale_at_length)
  have "w' ! p = ?w1 ! p"
    using "3.IH" [OF vl vr refl rest] "3.prems"(2,3) w1 by (simp add: scale_at_length)
  with w1 show ?case by simp
qed simp_all

lemma alloc_pairs_pair:
  assumes "alloc_pairs cv ps w = Inr w'" and "distinct (concat ps)" and "2 * j + 1 < length ps"
  shows "\<exists>vl vr. getClusterVar cv (ps ! (2 * j)) = Inr vl
           \<and> getClusterVar cv (ps ! (2 * j + 1)) = Inr vr
           \<and> (\<forall>p < length w.
                 (fst (w ! p) \<in> set (ps ! (2 * j)) \<longrightarrow>
                    snd (w' ! p) = fmul (snd (w ! p)) (alloc_factor vl vr))
               \<and> (fst (w ! p) \<in> set (ps ! (2 * j + 1)) \<longrightarrow>
                    snd (w' ! p) = fmul (snd (w ! p)) (fsub (Fin 1) (alloc_factor vl vr))))"
  using assms
proof (induction cv ps w arbitrary: w' j rule: alloc_pairs.induct)
  case (1 cv w)
  then show ?case by simp
next
  case (2 cv l w)
  then show ?case by simp
next
  case (3 cv l r rest w)
  from "3.prems"(1) obtain vl vr where
    vl: "getClusterVar cv l = Inr vl" and vr: "getClusterVar cv r = Inr vr" and
    rest: "alloc_pairs cv rest (scale_at r (fsub (Fin 1) (alloc_factor vl vr))
             (scale_at l (alloc_factor vl vr) w)) = Inr w'"
    by (auto simp: Let_def split: sum.splits)
  define a where "a = alloc_factor vl vr"
  let ?w1 = "scale_at r (fsub (Fin 1) a) (scale_at l a w)"
  note rest' = rest [folded a_def]
  from "3.prems"(2) have dl: "set l \<inter> set r = {}" "set l \<inter> set (concat rest) = {}"
    "set r \<inter> set (concat rest) = {}" "distinct (concat rest)"
    by auto
  show ?case
  proof (cases j)
    case 0
    have "\<forall>p < length w.
        (fst (w ! p) \<in> set l \<longrightarrow> snd (w' ! p) = fmul (snd (w ! p)) a)
      \<and> (fst (w ! p) \<in> set r \<longrightarrow> snd (w' ! p) = fmul (snd (w ! p)) (fsub (Fin 1) a))"
    proof (intro allI impI conjI)
      fix p assume p: "p < length w" and k: "fst (w ! p) \<in> set l"
      then have "fst (?w1 ! p) \<notin> set (concat rest)"
        "?w1 ! p = (fst (w ! p), fmul (snd (w ! p)) a)"
        using dl by (auto simp: scale_at_nth scale_at_length)
      with alloc_pairs_outside [OF rest', of p] p show "snd (w' ! p) = fmul (snd (w ! p)) a"
        by (simp add: scale_at_length)
    next
      fix p assume p: "p < length w" and k: "fst (w ! p) \<in> set r"
      then have "fst (?w1 ! p) \<notin> set (concat rest)"
        "?w1 ! p = (fst (w ! p), fmul (snd (w ! p)) (fsub (Fin 1) a))"
        using dl by (auto simp: scale_at_nth scale_at_length)
      with alloc_pairs_outside [OF rest', of p] p
      show "snd (w' ! p) = fmul (snd (w ! p)) (fsub (Fin 1) a)"
        by (simp add: scale_at_length)
    qed
    with vl vr show ?thesis by (simp add: 0 a_def)
  next
    case (Suc j')
    then have j': "2 * j' + 1 < length rest" using "3.prems"(3) by simp
    from "3.IH" [OF vl vr refl rest dl(4) j'] obtain ul ur where
      ul: "getClusterVar cv (rest ! (2 * j')) = Inr ul" and
      ur: "getClusterVar cv (rest ! (2 * j' + 1)) = Inr ur" and
      sc: "\<forall>p < length ?w1.
            (fst (?w1 ! p) \<in> set (rest ! (2 * j')) \<longrightarrow>
               snd (w' ! p) = fmul (snd (?w1 ! p)) (alloc_factor ul ur))
          \<and> (fst (?w1 ! p) \<in> set (rest ! (2 * j' + 1)) \<longrightarrow>
               snd (w' ! p) = fmul (snd (?w1 ! p)) (fsub (Fin 1) (alloc_factor ul ur)))"
      unfolding a_def by blast
    have inrest: "set (rest ! (2 * j')) \<subseteq> set (concat rest)"
      "set (rest ! (2 * j' + 1)) \<subseteq> set (concat rest)"
    proof -
      have "rest ! (2 * j') \<in> set rest" "rest ! (2 * j' + 1) \<in> set rest"
        using j' by simp_all
      then show "set (rest ! (2 * j')) \<subseteq> set (concat rest)"
        "set (rest ! (2 * j' + 1)) \<subseteq> set (concat rest)"
        by auto
    qed
    have same: "?w1 ! p = w ! p" if "p < length w" "fst (w ! p) \<in> set (concat rest)" for p
      using that dl by (auto simp: scale_at_nth scale_at_length)
    have "\<forall>p < length w.
        (fst (w ! p) \<in> set (rest ! (2 * j')) \<longrightarrow>
           snd (w' ! p) = fmul (snd (w ! p)) (alloc_factor ul ur))
      \<and> (fst (w ! p) \<in> set (rest ! (2 * j' + 1)) \<longrightarrow>
           snd (w' ! p) = fmul (snd (w ! p)) (fsub (Fin 1) (alloc_factor ul ur)))"
    proof (intro allI impI conjI)
      fix p assume p: "p < length w" and k: "fst (w ! p) \<in> set (rest ! (2 * j'))"
      then have "?w1 ! p = w ! p" using same inrest by blast
      with sc p k show "snd (w' ! p) = fmul (snd (w ! p)) (alloc_factor ul ur)"
        by (simp add: scale_at_length)
    next
      fix p assume p: "p < length w" and k: "fst (w ! p) \<in> set (rest ! (2 * j' + 1))"
      then have "?w1 ! p = w ! p" using same inrest by blast
      with sc p k show "snd (w' ! p) = fmul (snd (w ! p)) (fsub (Fin 1) (alloc_factor ul ur))"
        by (simp add: scale_at_length)
    qed
    with ul ur show ?thesis by (simp add: Suc)
  qed
qed

lemma pairs_length: "length (concat (map (\<lambda>c. [f c, g c]) xs)) = 2 * length xs"
  by (induction xs) simp_all

lemma pairs_nth:
  "j < length xs \<Longrightarrow>
   concat (map (\<lambda>c. [f c, g c]) xs) ! (2 * j) = f (xs ! j)
   \<and> concat (map (\<lambda>c. [f c, g c]) xs) ! (2 * j + 1) = g (xs ! j)"
proof (induction xs arbitrary: j)
  case Nil
  then show ?case by simp
next
  case (Cons x xs)
  then show ?case by (cases j) simp_all
qed

lemma bisection_length: "length (bisection cs) = 2 * length (parents cs)"
  by (simp add: bisection_parents pairs_length)

lemma bisection_nth:
  assumes "j < length (parents cs)"
  shows "bisection cs ! (2 * j) = take (length (parents cs ! j) div 2) (parents cs ! j)"
    and "bisection cs ! (2 * j + 1) = drop (length (parents cs ! j) div 2) (parents cs ! j)"
  using pairs_nth [OF assms, where f = "\<lambda>c. take (length c div 2) c"
      and g = "\<lambda>c. drop (length c div 2) c"]
  by (simp_all add: bisection_parents)

lemma alloc_pairs_succeeds:
  "\<forall>c \<in> set ps. \<exists>x. getClusterVar cv c = Inr x \<Longrightarrow> even (length ps) \<Longrightarrow>
   \<exists>w'. alloc_pairs cv ps w = Inr w'"
proof (induction cv ps w rule: alloc_pairs.induct)
  case (1 cv w)
  then show ?case by simp
next
  case (2 cv l w)
  then show ?case by simp
next
  case (3 cv l r rest w)
  from "3.prems"(1) obtain vl vr where
    vl: "getClusterVar cv l = Inr vl" and vr: "getClusterVar cv r = Inr vr"
    by auto
  from "3.prems" have "\<forall>c \<in> set rest. \<exists>x. getClusterVar cv c = Inr x" "even (length rest)"
    by simp_all
  from "3.IH" [OF vl vr refl this] show ?case
    using vl vr by (simp add: Let_def)
qed

subsection \<open>Uncorrelated assets of equal variance\<close>

lemma traverse_position:
  "set l \<subseteq> {0 ..< int N} \<Longrightarrow> traverse (position from N) l = Inr (map nat l)"
  by (induction l) (simp_all add: position_def)

lemma fsum_Fin: "fsum (map (\<lambda>x. Fin (f x)) xs) = Fin (sum_list (map f xs))"
  by (induction xs) simp_all

lemma fsum_replicate: "fsum (replicate m (Fin x)) = Fin (real m * x)"
  by (induction m) (simp_all add: algebra_simps)

lemma diag_cov_shape: "length (diag_cov N v) = N" "0 < N \<Longrightarrow> ncols (diag_cov N v) = N"
  by (simp_all add: diag_cov_def ncols_def upt_rec [of 0 N])

lemma diag_cov_nth:
  "i < N \<Longrightarrow> j < N \<Longrightarrow> diag_cov N v ! i ! j = (if i = j then Fin v else Fin 0)"
  by (simp add: diag_cov_def)

lemma iloc_diag:
  assumes "set l \<subseteq> {0 ..< int N}" and "l \<noteq> []"
  shows "iloc (diag_cov N v) l = Inr (map (\<lambda>i. map (\<lambda>j. if i = j then Fin v else Fin 0) l) l)"
proof -
  from assms have N: "0 < N" by (cases l) auto
  have "diag_cov N v ! nat i ! nat j = (if i = j then Fin v else Fin 0)"
    if "i \<in> set l" "j \<in> set l" for i j
  proof -
    from that assms(1) have "0 \<le> i" "i < int N" "0 \<le> j" "j < int N" by auto
    then have "nat i < N" "nat j < N" "nat i = nat j \<longleftrightarrow> i = j" by auto
    then show ?thesis by (simp add: diag_cov_nth)
  qed
  then have "map (\<lambda>i. map (\<lambda>j. diag_cov N v ! i ! j) (map nat l)) (map nat l)
      = map (\<lambda>i. map (\<lambda>j. if i = j then Fin v else Fin 0) l) l"
    by (simp add: comp_def)
  then show ?thesis
    using traverse_position [OF assms(1)] N by (simp add: iloc_def diag_cov_shape)
qed

lemma getIVP_diag:
  assumes "l \<noteq> []" and "0 < v"
  shows "getIVP (map (\<lambda>i. map (\<lambda>j. if i = j then Fin v else Fin 0) l) l)
           = replicate (length l) (Fin (1 / real (length l)))"
proof -
  let ?m = "length l"
  let ?sub = "map (\<lambda>i. map (\<lambda>j. if i = j then Fin v else Fin 0) l) l"
  have v: "v \<noteq> 0" using assms(2) by simp
  have m: "0 < real ?m" using assms(1) by simp
  have ivp: "map (\<lambda>i. fdiv (Fin 1) (?sub ! i ! i)) [0 ..< length ?sub] = replicate ?m (Fin (1 / v))"
    using v by (intro nth_equalityI) simp_all
  have s: "fsum (replicate ?m (Fin (1 / v))) = Fin (real ?m / v)"
    by (simp add: fsum_replicate)
  have nz: "real ?m / v \<noteq> 0" using m v by simp
  have inv: "fdiv (Fin 1) (Fin (real ?m / v)) = Fin (v / real ?m)"
    using nz by simp
  have e: "fmul (Fin (1 / v)) (Fin (v / real ?m)) = Fin (1 / real ?m)"
    using v by simp
  show ?thesis
    unfolding getIVP_def Let_def ivp s inv by (simp only: map_replicate e)
qed

lemma sum_list_delta:
  "i < m \<Longrightarrow> (\<Sum>j \<leftarrow> [0 ..< m]. if i = j then (x::real) else 0) = x"
  by (simp add: interv_sum_list_conv_sum_set_nat)

lemma ExpectedVariance_diag:
  assumes "distinct l" and "l \<noteq> []"
  shows "ExpectedVariance (map (\<lambda>i. map (\<lambda>j. if i = j then Fin v else Fin 0) l) l)
           (replicate (length l) (Fin (1 / real (length l)))) = Fin (v / real (length l))"
proof -
  let ?m = "length l"
  let ?sub = "map (\<lambda>i. map (\<lambda>j. if i = j then Fin v else Fin 0) l) l"
  let ?w = "replicate ?m (Fin (1 / real ?m))"
  have entry: "fmul (fmul (?w ! i) (?sub ! i ! j)) (?w ! j)
                = Fin (if i = j then v / (real ?m * real ?m) else 0)"
    if "i < ?m" "j < ?m" for i j
    using that assms(1) by (simp add: nth_eq_iff_index_eq)
  have inner: "fsum (map (\<lambda>j. fmul (fmul (?w ! i) (?sub ! i ! j)) (?w ! j)) [0 ..< ?m])
                 = Fin (v / (real ?m * real ?m))" if i: "i < ?m" for i
  proof -
    have "map (\<lambda>j. fmul (fmul (?w ! i) (?sub ! i ! j)) (?w ! j)) [0 ..< ?m]
        = map (\<lambda>j. Fin (if i = j then v / (real ?m * real ?m) else 0)) [0 ..< ?m]"
      using entry [OF i] by (intro map_cong) simp_all
    then show ?thesis
      using i by (simp only: fsum_Fin sum_list_delta)
  qed
  have "map (\<lambda>i. fsum (map (\<lambda>j. fmul (fmul (?w ! i) (?sub ! i ! j)) (?w ! j)) [0 ..< ?m])) [0 ..< ?m]
      = map (\<lambda>i. Fin (v / (real ?m * real ?m))) [0 ..< ?m]"
    using inner by (intro map_cong) simp_all
  then have "ExpectedVariance ?sub ?w = Fin (\<Sum>i \<leftarrow> [0 ..< ?m]. v / (real ?m * real ?m))"
    unfolding ExpectedVariance_def length_replicate by (simp only: fsum_Fin)
  also have "(\<Sum>i \<leftarrow> [0 ..< ?m]. v / (real ?m * real ?m)) = real ?m * (v / (real ?m * real ?m))"
    by (simp add: sum_list_triv)
  also have "\<dots> = v / real ?m"
    using assms(2) by simp
  finally show ?thesis .
qed

lemma getClusterVar_diag:
  assumes "set l \<subseteq> {0 ..< int N}" and "l \<noteq> []" and "distinct l" and "0 < v"
  shows "getClusterVar (diag_cov N v) l = Inr (Fin (v / real (length l)))"
  by (simp add: getClusterVar_def iloc_diag [OF assms(1,2)] getIVP_diag [OF assms(2,4)]
      ExpectedVariance_diag [OF assms(3,2)])

lemma alloc_factor_diag:
  assumes "0 < v" and "0 < a" and "0 < b"
  shows "alloc_factor (Fin (v / real a)) (Fin (v / real b)) = Fin (real a / (real a + real b))"
proof -
  have pos: "0 < v / real a + v / real b"
    using assms by (simp add: add_pos_pos)
  have "v / real a + v / real b = v * (real a + real b) / (real a * real b)"
    using assms by (simp add: field_simps)
  then have "(v / real a) / (v / real a + v / real b) = real b / (real a + real b)"
    using assms by simp
  moreover have "1 - real b / (real a + real b) = real a / (real a + real b)"
    using assms by (simp add: field_simps)
  ultimately have "1 - (v / real a) / (v / real a + v / real b) = real a / (real a + real b)"
    by simp
  with pos show ?thesis by (simp add: alloc_factor_def fsub_def)
qed

lemma share_inv_step:
  assumes inv: "share_inv N cs w" and v: "0 < v"
  shows "\<exists>w'. alloc_pairs (diag_cov N v) (bisection cs) w = Inr w'
           \<and> share_inv N (bisection cs) w' \<and> map fst w' = map fst w"
proof -
  let ?cv = "diag_cov N v" and ?ps = "bisection cs"
  from inv have dc: "distinct (concat cs)" and rng: "set (concat cs) \<subseteq> {0 ..< int N}"
    by (simp_all add: share_inv_def)
  have d: "distinct (concat ?ps)"
    by (rule distinct_concat_bisection [OF dc])
  have sub: "set (concat ?ps) \<subseteq> set (concat cs)"
    using set_concat_parents [of cs] by (simp add: concat_bisection)
  have var: "getClusterVar ?cv h = Inr (Fin (v / real (length h)))" and hpos: "0 < length h"
    if "h \<in> set ?ps" for h
  proof -
    from that bisection_nonempty [of cs] have ne: "h \<noteq> []" by auto
    from that have "set h \<subseteq> set (concat ?ps)" by auto
    with sub rng have r: "set h \<subseteq> {0 ..< int N}" by blast
    from that d have dh: "distinct h" by (auto simp: distinct_concat_iff)
    from getClusterVar_diag [OF r ne dh v]
    show "getClusterVar ?cv h = Inr (Fin (v / real (length h)))" .
    from ne show "0 < length h" by simp
  qed
  have "\<forall>h \<in> set ?ps. \<exists>x. getClusterVar ?cv h = Inr x"
    using var by blast
  from alloc_pairs_succeeds [OF this even_length_bisection]
  obtain w' where w': "alloc_pairs ?cv ?ps w = Inr w'" by blast
  have keys: "map fst w' = map fst w" by (rule alloc_pairs_keys [OF w'])
  have len: "length w' = length w" by (rule alloc_pairs_length [OF w'])
  have plen: "length ?ps = 2 * length (parents cs)"
    by (rule bisection_length)
  have fsts: "fst (w' ! p) = fst (w ! p)" if "p < length w" for p
  proof -
    have "map fst w' ! p = map fst w ! p" by (simp only: keys)
    with that len show ?thesis by simp
  qed
  have inside: "snd (w' ! p) = Fin (real (length h) / real N)"
    if p: "p < length w" and h: "h \<in> set ?ps" and k: "fst (w ! p) \<in> set h" for p h
  proof -
    from h obtain i where i: "i < length ?ps" "?ps ! i = h"
      by (auto simp: in_set_conv_nth)
    define j where "j = i div 2"
    have j: "j < length (parents cs)" using i plen by (simp add: j_def)
    let ?P = "parents cs ! j"
    let ?L = "take (length ?P div 2) ?P" and ?R = "drop (length ?P div 2) ?P"
    have at: "?ps ! (2 * j) = ?L" "?ps ! (2 * j + 1) = ?R"
      by (rule bisection_nth [OF j])+
    have Pin: "?P \<in> set cs" "1 < length ?P"
      using nth_mem [OF j] by (simp_all add: parents_def)
    have in_range: "2 * j < length ?ps" "2 * j + 1 < length ?ps"
      using j plen by simp_all
    have L: "?L \<in> set ?ps" and R: "?R \<in> set ?ps"
      using nth_mem [OF in_range(1)] nth_mem [OF in_range(2)] at by simp_all
    from alloc_pairs_pair [OF w' d in_range(2)] at obtain vl vr where
      vl: "getClusterVar ?cv ?L = Inr vl" and vr: "getClusterVar ?cv ?R = Inr vr" and
      sc: "\<forall>p < length w.
            (fst (w ! p) \<in> set ?L \<longrightarrow> snd (w' ! p) = fmul (snd (w ! p)) (alloc_factor vl vr))
          \<and> (fst (w ! p) \<in> set ?R \<longrightarrow>
               snd (w' ! p) = fmul (snd (w ! p)) (fsub (Fin 1) (alloc_factor vl vr)))"
      by auto
    define mL where "mL = real (length ?L)"
    define mR where "mR = real (length ?R)"
    define mP where "mP = real (length ?P)"
    from vl var [OF L] have vl_eq: "vl = Fin (v / mL)" by (simp add: mL_def)
    from vr var [OF R] have vr_eq: "vr = Fin (v / mR)" by (simp add: mR_def)
    have a: "alloc_factor vl vr = Fin (mL / (mL + mR))"
      unfolding vl_eq vr_eq mL_def mR_def
      by (rule alloc_factor_diag [OF v hpos [OF L] hpos [OF R]])
    have sum: "mL + mR = mP"
      unfolding mL_def mR_def mP_def by simp
    have "0 < length ?P" using Pin(2) by linarith
    then have Ppos: "0 < mP" unfolding mP_def by (simp only: of_nat_0_less_iff)
    have "i = 2 * j \<or> i = 2 * j + 1" unfolding j_def by presburger
    then have hLR: "h = ?L \<or> h = ?R" using i(2) at by auto
    have "set ?L \<subseteq> set ?P" "set ?R \<subseteq> set ?P"
      by (rule set_take_subset, rule set_drop_subset)
    with k hLR have kP: "fst (w ! p) \<in> set ?P" by auto
    from inv p Pin(1) kP have wp: "snd (w ! p) = Fin (mP / real N)"
      by (simp add: share_inv_def mP_def)
    have left: "mP / real N * (mL / (mL + mR)) = mL / real N"
      using Ppos by (simp add: sum)
    have "1 - mL / (mL + mR) = mR / mP"
      using Ppos sum by (simp add: field_simps)
    then have right: "mP / real N * (1 - mL / (mL + mR)) = mR / real N"
      using Ppos by simp
    from hLR show ?thesis
    proof
      assume hL: "h = ?L"
      with sc p k have "snd (w' ! p) = fmul (snd (w ! p)) (alloc_factor vl vr)" by simp
      then have "snd (w' ! p) = Fin (mL / real N)"
        by (simp only: wp a fmul.simps left)
      then show ?thesis by (simp only: hL mL_def)
    next
      assume hR: "h = ?R"
      with sc p k have "snd (w' ! p) = fmul (snd (w ! p)) (fsub (Fin 1) (alloc_factor vl vr))"
        by simp
      then have "snd (w' ! p) = Fin (mP / real N * (1 - mL / (mL + mR)))"
        by (simp add: wp a fsub_def)
      then have "snd (w' ! p) = Fin (mR / real N)"
        by (simp only: right)
      then show ?thesis by (simp only: hR mR_def)
    qed
  qed
  have outside: "snd (w' ! p) = Fin (1 / real N)"
    if p: "p < length w" and k: "fst (w ! p) \<notin> set (concat ?ps)" for p
  proof -
    have same: "w' ! p = w ! p" by (rule alloc_pairs_outside [OF w' p k])
    show ?thesis
    proof (cases "fst (w ! p) \<in> set (concat cs)")
      case False
      with inv p show ?thesis by (simp add: share_inv_def same)
    next
      case True
      then obtain c where c: "c \<in> set cs" "fst (w ! p) \<in> set c" by auto
      with k have "\<not> 1 < length c"
        by (auto simp: concat_bisection parents_def)
      with c(2) have "length c = 1" by (cases c) auto
      with inv p c show ?thesis by (simp add: share_inv_def same)
    qed
  qed
  have "\<forall>p < length w'.
        (\<forall>c \<in> set ?ps. fst (w' ! p) \<in> set c \<longrightarrow> snd (w' ! p) = Fin (real (length c) / real N))
      \<and> (fst (w' ! p) \<notin> set (concat ?ps) \<longrightarrow> snd (w' ! p) = Fin (1 / real N))"
  proof (intro allI impI conjI ballI)
    fix p c assume "p < length w'" "c \<in> set ?ps" "fst (w' ! p) \<in> set c"
    then show "snd (w' ! p) = Fin (real (length c) / real N)"
      using inside [of p c] fsts [of p] len by simp
  next
    fix p assume "p < length w'" "fst (w' ! p) \<notin> set (concat ?ps)"
    then show "snd (w' ! p) = Fin (1 / real N)"
      using outside [of p] fsts [of p] len by simp
  qed
  with d sub rng have "share_inv N ?ps w'"
    unfolding share_inv_def by blast
  with w' keys show ?thesis by blast
qed

lemma while_clusters_equal_shares:
  "share_inv N cs w \<Longrightarrow> 0 < v \<Longrightarrow>
   \<exists>w'. while_clusters (diag_cov N v) cs w = Inr w' \<and> map fst w' = map fst w
     \<and> (\<forall>p < length w'. snd (w' ! p) = Fin (1 / real N))"
proof (induction "diag_cov N v" cs w rule: while_clusters.induct)
  case (1 cs w)
  show ?case
  proof (cases "cs = []")
    case True
    with "1.prems"(1) show ?thesis by (simp add: share_inv_def)
  next
    case False
    from share_inv_step [OF "1.prems"] obtain w1 where
      w1: "alloc_pairs (diag_cov N v) (bisection cs) w = Inr w1" and
      inv: "share_inv N (bisection cs) w1" and keys: "map fst w1 = map fst w"
      by blast
    from "1.hyps" [OF False w1 inv "1.prems"(2)] obtain w' where
      "while_clusters (diag_cov N v) (bisection cs) w1 = Inr w'" "map fst w' = map fst w1"
      "\<forall>p < length w'. snd (w' ! p) = Fin (1 / real N)"
      by blast
    with False w1 keys show ?thesis by simp
  qed
qed

text \<open>
  Claim C4, as the code has it. On the diagonal risk matrix of \<open>N\<close> assets with the same
  positive variance, the recursive bisection gives every asset the weight \<open>1 / N\<close>. The
  cluster variance of a cluster of \<open>m\<close> assets is \<open>v / m\<close>, so the allocation factor of a
  pair of halves of \<open>m\<^sub>l\<close> and \<open>m\<^sub>r\<close> assets is \<open>m\<^sub>l / (m\<^sub>l + m\<^sub>r)\<close>: it is
  \<open>0.5\<close> when the halves have the same size, and only then.
\<close>

theorem equal_variance_shares:
  assumes "0 < v" and "distinct ordered_indices" and "set ordered_indices = {0 ..< int N}"
    and "length assets = N"
  shows "getRecBipart (diag_cov N v) assets ordered_indices
           = Inr (map (\<lambda>i. (assets ! nat i, Fin (1 / real N))) ordered_indices)
    \<and> (\<forall>l r. l \<noteq> [] \<and> r \<noteq> [] \<and> distinct (l @ r) \<and> set (l @ r) \<subseteq> {0 ..< int N} \<longrightarrow>
          getClusterVar (diag_cov N v) l = Inr (Fin (v / real (length l)))
        \<and> getClusterVar (diag_cov N v) r = Inr (Fin (v / real (length r)))
        \<and> alloc_factor (Fin (v / real (length l))) (Fin (v / real (length r)))
            = Fin (real (length l) / (real (length l) + real (length r))))"
proof -
  have N: "length ordered_indices = N"
    using assms(2,3) distinct_card [of ordered_indices] by simp
  let ?w0 = "map (\<lambda>i. (i, Fin 1)) ordered_indices"
  have inv: "share_inv N [ordered_indices] ?w0"
  proof -
    have "real (length ordered_indices) / real N = 1" if "0 < N"
      using that N by simp
    moreover have "0 < N" if "p < length ordered_indices" for p
      using that N by simp
    ultimately show ?thesis
      using assms(2,3) by (auto simp: share_inv_def)
  qed
  from while_clusters_equal_shares [OF inv assms(1)] obtain w' where
    w': "while_clusters (diag_cov N v) [ordered_indices] ?w0 = Inr w'" and
    keys: "map fst w' = map fst ?w0" and
    vals: "\<forall>p < length w'. snd (w' ! p) = Fin (1 / real N)"
    by blast
  have len: "length w' = length ordered_indices"
    using keys by (metis length_map)
  have snds: "map snd w' = map (\<lambda>i. Fin (1 / real N)) ordered_indices"
    using vals len by (intro nth_equalityI) simp_all
  have pos: "traverse (position AssetIndex (length assets)) ordered_indices
               = Inr (map nat ordered_indices)"
    using assms(3,4) by (intro traverse_position) simp
  have z: "zip (map (\<lambda>p. assets ! p) (map nat ordered_indices))
               (map (\<lambda>i. Fin (1 / real N)) ordered_indices)
          = map (\<lambda>i. (assets ! nat i, Fin (1 / real N))) ordered_indices"
    by (induction ordered_indices) simp_all
  have first: "getRecBipart (diag_cov N v) assets ordered_indices
           = Inr (map (\<lambda>i. (assets ! nat i, Fin (1 / real N))) ordered_indices)"
    unfolding getRecBipart_def Let_def w' pos snds sum.case z ..
  have second: "getClusterVar (diag_cov N v) l = Inr (Fin (v / real (length l)))
        \<and> getClusterVar (diag_cov N v) r = Inr (Fin (v / real (length r)))
        \<and> alloc_factor (Fin (v / real (length l))) (Fin (v / real (length r)))
            = Fin (real (length l) / (real (length l) + real (length r)))"
    if "l \<noteq> []" "r \<noteq> []" "distinct (l @ r)" "set (l @ r) \<subseteq> {0 ..< int N}" for l r
  proof -
    from that have "set l \<subseteq> {0 ..< int N}" "set r \<subseteq> {0 ..< int N}" "distinct l" "distinct r"
      "0 < length l" "0 < length r"
      by auto
    then show ?thesis
      using getClusterVar_diag [of l N, OF _ that(1) _ assms(1)]
        getClusterVar_diag [of r N, OF _ that(2) _ assms(1)]
        alloc_factor_diag [OF assms(1), of "length l" "length r"]
      by simp
  qed
  from first second show ?thesis by blast
qed

theorem equal_variance_shares_witness:
  "(0::real) < 2 \<and> distinct [1, 0 :: int] \<and> set [1, 0] = {0 ..< int 2}
   \<and> length [''A'', ''B''] = 2
   \<and> diag_cov 2 2 = [[Fin 2, Fin 0], [Fin 0, Fin 2]]
   \<and> getRecBipart [[Fin 2, Fin 0], [Fin 0, Fin 2]] [''A'', ''B''] [1, 0]
       = Inr [(''B'', Fin (1 / 2)), (''A'', Fin (1 / 2))]"
proof -
  have a: "(0::real) < 2" by simp
  have b: "distinct [1, 0 :: int]" by simp
  have c: "set [1, 0] = {0 ..< int 2}" by auto
  have d: "length [''A'', ''B''] = 2" by simp
  have e: "diag_cov 2 2 = [[Fin 2, Fin 0], [Fin 0, Fin 2]]"
    by code_simp
  from equal_variance_shares [OF a b c d] a b c d e show ?thesis
    by simp
qed

text \<open>
  Three assets: the first split is into one asset and two, with cluster variances \<open>1\<close>
  and \<open>1 / 2\<close>, and the allocation factor is \<open>1 / 3\<close>.
\<close>

theorem equal_variance_counterexample:
  "diag_cov 3 1 = [[Fin 1, Fin 0, Fin 0], [Fin 0, Fin 1, Fin 0], [Fin 0, Fin 0, Fin 1]]
   \<and> bisection [[0, 1, 2]] = [[0], [1, 2]]
   \<and> getClusterVar [[Fin 1, Fin 0, Fin 0], [Fin 0, Fin 1, Fin 0], [Fin 0, Fin 0, Fin 1]] [0]
       = Inr (Fin 1)
   \<and> getClusterVar [[Fin 1, Fin 0, Fin 0], [Fin 0, Fin 1, Fin 0], [Fin 0, Fin 0, Fin 1]] [1, 2]
       = Inr (Fin (1 / 2))
   \<and> alloc_factor (Fin 1) (Fin (1 / 2)) = Fin (1 / 3)
   \<and> alloc_factor (Fin 1) (Fin (1 / 2)) \<noteq> Fin (1 / 2)"
  by code_simp

subsection \<open>A zero sum of the two cluster variances\<close>

lemma fmul_not_finite_left: "\<not> finite_fl x \<Longrightarrow> \<not> finite_fl (fmul x a)"
  by (cases x; cases a) auto

lemma fmul_not_finite_right: "\<not> finite_fl a \<Longrightarrow> \<not> finite_fl (fmul x a)"
  by (cases x; cases a) auto

lemma alloc_factor_zero_sum:
  assumes "x + y = 0"
  shows "alloc_factor (Fin x) (Fin y) = (if x = 0 then NaN else if 0 < x then NInf else PInf)"
    and "\<not> finite_fl (alloc_factor (Fin x) (Fin y))"
    and "\<not> finite_fl (fsub (Fin 1) (alloc_factor (Fin x) (Fin y)))"
proof -
  have s: "fadd (Fin x) (Fin y) = Fin 0" using assms by simp
  show "alloc_factor (Fin x) (Fin y) = (if x = 0 then NaN else if 0 < x then NInf else PInf)"
    unfolding alloc_factor_def s by (simp add: fsub_def)
  then show "\<not> finite_fl (alloc_factor (Fin x) (Fin y))"
    and "\<not> finite_fl (fsub (Fin 1) (alloc_factor (Fin x) (Fin y)))"
    by (simp_all add: fsub_def)
qed

lemma scale_at_not_finite:
  "p < length w \<Longrightarrow> \<not> finite_fl (snd (w ! p)) \<Longrightarrow> \<not> finite_fl (snd (scale_at c a w ! p))"
  by (simp add: scale_at_nth fmul_not_finite_left)

lemma alloc_pairs_not_finite:
  "alloc_pairs cv ps w = Inr w' \<Longrightarrow> p < length w \<Longrightarrow> \<not> finite_fl (snd (w ! p)) \<Longrightarrow>
   \<not> finite_fl (snd (w' ! p))"
proof (induction cv ps w arbitrary: w' rule: alloc_pairs.induct)
  case (3 cv l r rest w)
  from "3.prems"(1) obtain vl vr where
    vl: "getClusterVar cv l = Inr vl" and vr: "getClusterVar cv r = Inr vr" and
    rest: "alloc_pairs cv rest (scale_at r (fsub (Fin 1) (alloc_factor vl vr))
             (scale_at l (alloc_factor vl vr) w)) = Inr w'"
    by (auto simp: Let_def split: sum.splits)
  let ?w1 = "scale_at r (fsub (Fin 1) (alloc_factor vl vr)) (scale_at l (alloc_factor vl vr) w)"
  have "\<not> finite_fl (snd (?w1 ! p))"
    using "3.prems"(2,3) by (intro scale_at_not_finite) (simp_all add: scale_at_length)
  with "3.IH" [OF vl vr refl rest] "3.prems"(2) show ?case
    by (simp add: scale_at_length)
qed simp_all

lemma while_clusters_not_finite:
  "while_clusters cv cs w = Inr w' \<Longrightarrow> p < length w \<Longrightarrow> \<not> finite_fl (snd (w ! p)) \<Longrightarrow>
   \<not> finite_fl (snd (w' ! p))"
proof (induction cv cs w rule: while_clusters.induct)
  case (1 cv cs w)
  show ?case
  proof (cases "cs = []")
    case True
    with "1.prems" show ?thesis by simp
  next
    case False
    from "1.prems"(1) False
    have "(case alloc_pairs cv (bisection cs) w of Inl e \<Rightarrow> Inl e
           | Inr w1 \<Rightarrow> while_clusters cv (bisection cs) w1) = Inr w'"
      using while_clusters.simps [of cv cs w] by (simp del: while_clusters.simps)
    then obtain w1 where
      w1: "alloc_pairs cv (bisection cs) w = Inr w1" and
      run: "while_clusters cv (bisection cs) w1 = Inr w'"
      by (cases "alloc_pairs cv (bisection cs) w") (simp_all del: while_clusters.simps)
    have "p < length w1" "\<not> finite_fl (snd (w1 ! p))"
      using alloc_pairs_length [OF w1] alloc_pairs_not_finite [OF w1 "1.prems"(2,3)] "1.prems"(2)
      by simp_all
    from "1.IH" [OF False w1 run this] show ?thesis .
  qed
qed

lemma while_clusters_keys: "while_clusters cv cs w = Inr w' \<Longrightarrow> map fst w' = map fst w"
proof (induction cv cs w rule: while_clusters.induct)
  case (1 cv cs w)
  show ?case
  proof (cases "cs = []")
    case True
    with "1.prems" show ?thesis by simp
  next
    case False
    from "1.prems"(1) False
    have "(case alloc_pairs cv (bisection cs) w of Inl e \<Rightarrow> Inl e
           | Inr w1 \<Rightarrow> while_clusters cv (bisection cs) w1) = Inr w'"
      using while_clusters.simps [of cv cs w] by (simp del: while_clusters.simps)
    then obtain w1 where
      w1: "alloc_pairs cv (bisection cs) w = Inr w1" and
      run: "while_clusters cv (bisection cs) w1 = Inr w'"
      by (cases "alloc_pairs cv (bisection cs) w") (simp_all del: while_clusters.simps)
    from "1.IH" [OF False w1 run] alloc_pairs_keys [OF w1] show ?thesis by simp
  qed
qed

lemma getClusterVar_in_range:
  assumes "set c \<subseteq> {0 ..< int N}" and "length cv = N" and "ncols cv = N"
  shows "\<exists>x. getClusterVar cv c = Inr x"
proof -
  have "traverse (position Iloc N) c = Inr (map nat c)"
    by (rule traverse_position [OF assms(1)])
  then show ?thesis
    by (simp add: getClusterVar_def iloc_def assms(2,3))
qed

lemma while_clusters_in_range:
  "length cv = N \<Longrightarrow> ncols cv = N \<Longrightarrow> set (concat cs) \<subseteq> {0 ..< int N} \<Longrightarrow>
   \<exists>w'. while_clusters cv cs w = Inr w'"
proof (induction cv cs w rule: while_clusters.induct)
  case (1 cv cs w)
  show ?case
  proof (cases "cs = []")
    case True
    then show ?thesis by simp
  next
    case False
    have "set (concat (bisection cs)) \<subseteq> set (concat cs)"
      using set_concat_parents [of cs] by (simp add: concat_bisection)
    then have sub: "set (concat (bisection cs)) \<subseteq> {0 ..< int N}"
      using "1.prems"(3) by (rule subset_trans)
    have "\<exists>x. getClusterVar cv c = Inr x" if "c \<in> set (bisection cs)" for c
    proof -
      from that have "set c \<subseteq> set (concat (bisection cs))" by auto
      then have "set c \<subseteq> {0 ..< int N}" using sub by (rule subset_trans)
      then show ?thesis by (rule getClusterVar_in_range [OF _ "1.prems"(1,2)])
    qed
    then have "\<forall>c \<in> set (bisection cs). \<exists>x. getClusterVar cv c = Inr x"
      by blast
    from alloc_pairs_succeeds [OF this even_length_bisection]
    obtain w1 where w1: "alloc_pairs cv (bisection cs) w = Inr w1" by blast
    from "1.IH" [OF False w1 "1.prems"(1,2) sub] obtain w' where
      "while_clusters cv (bisection cs) w1 = Inr w'" by blast
    with False w1 show ?thesis
      using while_clusters.simps [of cv cs w] by (simp del: while_clusters.simps)
  qed
qed

lemma zero_pair_in_run:
  assumes "x + y = 0"
  shows "distinct (concat cs) \<Longrightarrow> while_clusters cv cs w = Inr w' \<Longrightarrow>
    2 * j + 1 < length ((bisection ^^ Suc k) cs) \<Longrightarrow>
    getClusterVar cv ((bisection ^^ Suc k) cs ! (2 * j)) = Inr (Fin x) \<Longrightarrow>
    getClusterVar cv ((bisection ^^ Suc k) cs ! (2 * j + 1)) = Inr (Fin y) \<Longrightarrow>
    p < length w \<Longrightarrow>
    fst (w ! p) \<in> set ((bisection ^^ Suc k) cs ! (2 * j))
                    \<union> set ((bisection ^^ Suc k) cs ! (2 * j + 1)) \<Longrightarrow>
    \<not> finite_fl (snd (w' ! p))"
proof (induction k arbitrary: cs w)
  case 0
  have L: "(bisection ^^ Suc 0) cs = bisection cs" by simp
  have ne: "cs \<noteq> []"
    using "0.prems"(3) by (auto simp: bisection_Nil)
  from "0.prems"(2) ne
  have "(case alloc_pairs cv (bisection cs) w of Inl e \<Rightarrow> Inl e
         | Inr w1 \<Rightarrow> while_clusters cv (bisection cs) w1) = Inr w'"
    using while_clusters.simps [of cv cs w] by (simp del: while_clusters.simps)
  then obtain w1 where
    w1: "alloc_pairs cv (bisection cs) w = Inr w1" and
    run: "while_clusters cv (bisection cs) w1 = Inr w'"
    by (cases "alloc_pairs cv (bisection cs) w") (simp_all del: while_clusters.simps)
  have d: "distinct (concat (bisection cs))"
    by (rule distinct_concat_bisection [OF "0.prems"(1)])
  from alloc_pairs_pair [OF w1 d, of j] "0.prems"(3,4,5) have
    sc: "\<forall>p < length w.
          (fst (w ! p) \<in> set (bisection cs ! (2 * j)) \<longrightarrow>
             snd (w1 ! p) = fmul (snd (w ! p)) (alloc_factor (Fin x) (Fin y)))
        \<and> (fst (w ! p) \<in> set (bisection cs ! (2 * j + 1)) \<longrightarrow>
             snd (w1 ! p) = fmul (snd (w ! p)) (fsub (Fin 1) (alloc_factor (Fin x) (Fin y))))"
    by (auto simp: L)
  from "0.prems"(7) have "fst (w ! p) \<in> set (bisection cs ! (2 * j))
      \<or> fst (w ! p) \<in> set (bisection cs ! (2 * j + 1))"
    by (simp add: L)
  then have "\<not> finite_fl (snd (w1 ! p))"
    using sc "0.prems"(6) alloc_factor_zero_sum(2,3) [OF assms]
    by (auto simp: fmul_not_finite_right)
  moreover have "p < length w1"
    using alloc_pairs_length [OF w1] "0.prems"(6) by simp
  ultimately show ?case
    by (rule while_clusters_not_finite [OF run, rotated])
next
  case (Suc k)
  have L: "(bisection ^^ Suc (Suc k)) cs = (bisection ^^ Suc k) (bisection cs)"
    by (simp only: funpow_Suc_right comp_def)
  have ne: "cs \<noteq> []"
  proof
    assume e: "cs = []"
    have "(bisection ^^ n) [] = []" for n
      by (induction n) (simp_all add: bisection_Nil)
    then have "length ((bisection ^^ Suc (Suc k)) cs) = 0"
      unfolding e by (simp only: list.size)
    with Suc.prems(3) show False by simp
  qed
  from Suc.prems(2) ne
  have "(case alloc_pairs cv (bisection cs) w of Inl e \<Rightarrow> Inl e
         | Inr w1 \<Rightarrow> while_clusters cv (bisection cs) w1) = Inr w'"
    using while_clusters.simps [of cv cs w] by (simp del: while_clusters.simps)
  then obtain w1 where
    w1: "alloc_pairs cv (bisection cs) w = Inr w1" and
    run: "while_clusters cv (bisection cs) w1 = Inr w'"
    by (cases "alloc_pairs cv (bisection cs) w") (simp_all del: while_clusters.simps)
  have d: "distinct (concat (bisection cs))"
    by (rule distinct_concat_bisection [OF Suc.prems(1)])
  have len: "length w1 = length w" by (rule alloc_pairs_length [OF w1])
  have "map fst w1 ! p = map fst w ! p"
    by (simp only: alloc_pairs_keys [OF w1])
  then have k1: "fst (w1 ! p) = fst (w ! p)"
    using Suc.prems(6) len by simp
  show ?case
    using Suc.IH [OF d run] Suc.prems(3,4,5,6,7) len k1
    unfolding L by simp
qed

text \<open>
  Claim C5, as the code has it. The division of the allocation factor is not guarded.
  When, in some pass of \<open>_getRecBipart\<close>, the cluster variances of an adjacent pair of
  sibling clusters are finite and sum to exactly zero, the factor is \<open>nan\<close> (both
  variances zero) or an infinity; it is no number, so not the equal split \<open>0.5\<close>. The run
  goes on without an exception, and every asset of the two clusters ends with a weight
  that is \<open>nan\<close> or infinite.
\<close>

theorem zero_risk_weights:
  assumes "distinct ordered_indices" and "set ordered_indices \<subseteq> {0 ..< int N}"
    and "length cv = N" and "ncols cv = N" and "length assets = N"
    and "2 * j + 1 < length (level k ordered_indices)"
    and "getClusterVar cv (level k ordered_indices ! (2 * j)) = Inr (Fin x)"
    and "getClusterVar cv (level k ordered_indices ! (2 * j + 1)) = Inr (Fin y)"
    and "x + y = 0"
  shows "alloc_factor (Fin x) (Fin y) = (if x = 0 then NaN else if 0 < x then NInf else PInf)
    \<and> (\<exists>ws. getRecBipart cv assets ordered_indices = Inr ws
          \<and> length ws = length ordered_indices
          \<and> (\<forall>p < length ordered_indices.
                ordered_indices ! p \<in> set (level k ordered_indices ! (2 * j))
                                        \<union> set (level k ordered_indices ! (2 * j + 1)) \<longrightarrow>
                \<not> finite_fl (snd (ws ! p))))"
proof -
  let ?w0 = "map (\<lambda>i. (i, Fin 1)) ordered_indices"
  obtain k' where k: "k = Suc k'"
    using assms(6) by (cases k) (simp_all add: level_def)
  have rng: "set (concat [ordered_indices]) \<subseteq> {0 ..< int N}"
    using assms(2) by simp
  from while_clusters_in_range [OF assms(3,4) rng, of ?w0] obtain w' where
    w': "while_clusters cv [ordered_indices] ?w0 = Inr w'" by blast
  have keys: "map fst w' = map fst ?w0" by (rule while_clusters_keys [OF w'])
  then have len: "length w' = length ordered_indices" by (metis length_map)
  have pos: "traverse (position AssetIndex (length assets)) ordered_indices
               = Inr (map nat ordered_indices)"
    using assms(2,5) by (intro traverse_position) simp
  define ws where "ws = zip (map (\<lambda>p. assets ! p) (map nat ordered_indices)) (map snd w')"
  have res: "getRecBipart cv assets ordered_indices = Inr ws"
    unfolding getRecBipart_def Let_def w' pos sum.case ws_def ..
  have lws: "length ws = length ordered_indices"
    by (simp add: ws_def len)
  have d: "distinct (concat [ordered_indices])" using assms(1) by simp
  have "\<not> finite_fl (snd (ws ! p))"
    if p: "p < length ordered_indices"
      and m: "ordered_indices ! p \<in> set (level k ordered_indices ! (2 * j))
                                    \<union> set (level k ordered_indices ! (2 * j + 1))" for p
  proof -
    have "\<not> finite_fl (snd (w' ! p))"
      using zero_pair_in_run [OF assms(9) d w', of j k' p] assms(6,7,8) p m
      unfolding k level_def by simp
    moreover have "snd (ws ! p) = snd (w' ! p)"
      using p len by (simp add: ws_def)
    ultimately show ?thesis by simp
  qed
  with res lws alloc_factor_zero_sum(1) [OF assms(9)] show ?thesis by blast
qed

theorem zero_risk_weights_witness:
  "distinct [0, 1, 2, 3 :: int] \<and> set [0, 1, 2, 3] \<subseteq> {0 ..< int 4}
   \<and> level 1 [0, 1, 2, 3] = [[0, 1], [2, 3]]
   \<and> getClusterVar [[Fin 1, Fin (- 1), Fin 0, Fin 0], [Fin (- 1), Fin 1, Fin 0, Fin 0],
         [Fin 0, Fin 0, Fin 1, Fin (- 1)], [Fin 0, Fin 0, Fin (- 1), Fin 1]] [0, 1] = Inr (Fin 0)
   \<and> getClusterVar [[Fin 1, Fin (- 1), Fin 0, Fin 0], [Fin (- 1), Fin 1, Fin 0, Fin 0],
         [Fin 0, Fin 0, Fin 1, Fin (- 1)], [Fin 0, Fin 0, Fin (- 1), Fin 1]] [2, 3] = Inr (Fin 0)
   \<and> alloc_factor (Fin 0) (Fin 0) = NaN
   \<and> (\<exists>ws. getRecBipart [[Fin 1, Fin (- 1), Fin 0, Fin 0], [Fin (- 1), Fin 1, Fin 0, Fin 0],
         [Fin 0, Fin 0, Fin 1, Fin (- 1)], [Fin 0, Fin 0, Fin (- 1), Fin 1]]
         [''A'', ''B'', ''C'', ''D''] [0, 1, 2, 3] = Inr ws \<and> length ws = 4)"
proof -
  let ?cv = "[[Fin 1, Fin (- 1), Fin 0, Fin 0], [Fin (- 1), Fin 1, Fin 0, Fin 0],
         [Fin 0, Fin 0, Fin 1, Fin (- 1)], [Fin 0, Fin 0, Fin (- 1), Fin 1]]"
  have a: "distinct [0, 1, 2, 3 :: int]" by simp
  have b: "set [0, 1, 2, 3] \<subseteq> {0 ..< int 4}" by simp
  have c: "length ?cv = 4" "ncols ?cv = 4" "length [''A'', ''B'', ''C'', ''D''] = 4"
    by (simp_all add: ncols_def)
  have lv: "level 1 [0, 1, 2, 3] = [[0, 1], [2, 3]]"
    by code_simp
  have j: "2 * 0 + 1 < length (level 1 [0, 1, 2, 3 :: int])"
    unfolding lv by simp
  have l: "getClusterVar ?cv [0, 1] = Inr (Fin 0)" by code_simp
  have r: "getClusterVar ?cv [2, 3] = Inr (Fin 0)" by code_simp
  have l': "getClusterVar ?cv (level 1 [0, 1, 2, 3] ! (2 * 0)) = Inr (Fin 0)"
    unfolding lv using l by simp
  have r': "getClusterVar ?cv (level 1 [0, 1, 2, 3] ! (2 * 0 + 1)) = Inr (Fin 0)"
    unfolding lv using r by simp
  have z: "(0::real) + 0 = 0" by simp
  from zero_risk_weights [OF a b c j l' r' z] a b lv l r show ?thesis
    by auto
qed

text \<open>
  Four assets in two perfectly anti-correlated pairs of equal variance: both halves of
  the first split have cluster variance zero, the allocation factor is \<open>nan\<close> and not
  \<open>0.5\<close>, and every weight that \<open>_getRecBipart\<close> returns is \<open>nan\<close>.
\<close>

theorem zero_risk_counterexample:
  "getClusterVar [[Fin 1, Fin (- 1), Fin 0, Fin 0], [Fin (- 1), Fin 1, Fin 0, Fin 0],
         [Fin 0, Fin 0, Fin 1, Fin (- 1)], [Fin 0, Fin 0, Fin (- 1), Fin 1]] [0, 1] = Inr (Fin 0)
   \<and> getClusterVar [[Fin 1, Fin (- 1), Fin 0, Fin 0], [Fin (- 1), Fin 1, Fin 0, Fin 0],
         [Fin 0, Fin 0, Fin 1, Fin (- 1)], [Fin 0, Fin 0, Fin (- 1), Fin 1]] [2, 3] = Inr (Fin 0)
   \<and> alloc_factor (Fin 0) (Fin 0) \<noteq> Fin (1 / 2)
   \<and> getRecBipart [[Fin 1, Fin (- 1), Fin 0, Fin 0], [Fin (- 1), Fin 1, Fin 0, Fin 0],
         [Fin 0, Fin 0, Fin 1, Fin (- 1)], [Fin 0, Fin 0, Fin (- 1), Fin 1]]
         [''A'', ''B'', ''C'', ''D''] [0, 1, 2, 3]
       = Inr [(''A'', NaN), (''B'', NaN), (''C'', NaN), (''D'', NaN)]"
  by code_simp

subsection \<open>Fewer than two usable assets\<close>

lemma getattr_init:
  assumes "init r m = Inr self"
  shows "getattr self ''_RiskMetrics'' = Inr (PyStr (lower r))"
    and "getattr self ''_Method'' = Inr (PyStr (lower m))"
    and "lower r \<in> set risk_metric_names"
    and "self ''asset_names'' = None"
    and "self ''clusters'' = Some PyNone"
  using assms by (auto simp: init_def getattr_def Let_def split: if_splits)

lemma risk_matrix_of_known:
  "x \<in> set risk_metric_names \<Longrightarrow> \<exists>cv. risk_matrix_of ext (PyStr x) = Inr cv"
  by (auto simp: risk_matrix_of_def risk_metric_names_def)

text \<open>
  Claim C6, as the code has it. The checks at the start of \<open>optimize\<close> look at the type of
  the table and of its index only, and the number of usable assets is checked nowhere.
  For a table that passes them with fewer than two usable assets, \<open>optimize\<close> returns no
  weight table: it raises the \<open>ValueError\<close> of SciPy's \<open>linkage\<close>, after the risk matrix has
  been estimated and before \<open>self.clusters\<close> is assigned.
\<close>

theorem optimize_few_assets:
  assumes "is_DataFrame t" and "index_is_DatetimeIndex t"
    and "init RiskMetrics Method = Inr self"
    and "length (asset_names ext) < 2"
  shows "validate (Some t) = None
    \<and> optimize ext self (Some t) = (self, Inl (ValueErrorIn SciPy))"
proof -
  have v: "validate (Some t) = None"
    using assms(1,2) by (simp add: validate_def)
  obtain cv where cv: "risk_matrix_of ext (PyStr (lower RiskMetrics)) = Inr cv"
    using risk_matrix_of_known getattr_init(3) [OF assms(3)] by blast
  note g = getattr_init(1,2) [OF assms(3)]
  have l: "linkage_of ext (lower Method) = Inl (ValueErrorIn SciPy)"
    using assms(4) by (simp add: linkage_of_def)
  show ?thesis
    using v cv g l by (simp add: optimize_def)
qed

theorem optimize_few_assets_witness:
  "is_DataFrame \<lparr>is_DataFrame = True, index_is_DatetimeIndex = True\<rparr>
   \<and> index_is_DatetimeIndex \<lparr>is_DataFrame = True, index_is_DatetimeIndex = True\<rparr>
   \<and> init ''Variance'' ''Single'' =
       Inr [''clusters'' \<mapsto> PyNone, ''_RiskMetrics'' \<mapsto> PyStr ''variance'',
            ''_Method'' \<mapsto> PyStr ''single'']
   \<and> length (asset_names \<lparr>asset_names = [], Sample = [], SampleSemi = [],
         BasicShrinkage = [], LedoitWolf = [], Oracle = [],
         scipy_linkage = (\<lambda>m. Inr []), recursion_limit = 1000\<rparr>) < 2
   \<and> optimize \<lparr>asset_names = [], Sample = [], SampleSemi = [],
         BasicShrinkage = [], LedoitWolf = [], Oracle = [],
         scipy_linkage = (\<lambda>m. Inr []), recursion_limit = 1000\<rparr>
         [''clusters'' \<mapsto> PyNone, ''_RiskMetrics'' \<mapsto> PyStr ''variance'',
            ''_Method'' \<mapsto> PyStr ''single'']
         (Some \<lparr>is_DataFrame = True, index_is_DatetimeIndex = True\<rparr>)
       = ([''clusters'' \<mapsto> PyNone, ''_RiskMetrics'' \<mapsto> PyStr ''variance'',
            ''_Method'' \<mapsto> PyStr ''single''], Inl (ValueErrorIn SciPy))"
proof -
  let ?t = "\<lparr>is_DataFrame = True, index_is_DatetimeIndex = True\<rparr>"
  let ?ext = "\<lparr>asset_names = [], Sample = [], SampleSemi = [],
         BasicShrinkage = [], LedoitWolf = [], Oracle = [],
         scipy_linkage = (\<lambda>m. Inr []), recursion_limit = 1000\<rparr>"
  let ?self = "[''clusters'' \<mapsto> PyNone, ''_RiskMetrics'' \<mapsto> PyStr ''variance'',
            ''_Method'' \<mapsto> PyStr ''single'']"
  have a: "is_DataFrame ?t" and b: "index_is_DatetimeIndex ?t" by simp_all
  have c: "init ''Variance'' ''Single'' = Inr ?self"
    by (simp add: init_def risk_metric_names_def method_names_def lower_def lower_char_def)
  have d: "length (asset_names ?ext) < 2" by simp
  from optimize_few_assets [OF a b c d] a b c d show ?thesis by simp
qed

text \<open>
  A table of one asset: the validation at the start raises nothing, and the exception
  that ends the run is the \<open>ValueError\<close> raised inside SciPy.
\<close>

theorem optimize_one_asset_counterexample:
  "validate (Some \<lparr>is_DataFrame = True, index_is_DatetimeIndex = True\<rparr>) = None
   \<and> init ''Variance'' ''Single'' =
       Inr [''clusters'' \<mapsto> PyNone, ''_RiskMetrics'' \<mapsto> PyStr ''variance'',
            ''_Method'' \<mapsto> PyStr ''single'']
   \<and> snd (optimize \<lparr>asset_names = [''A''], Sample = [[Fin 1]], SampleSemi = [[Fin 1]],
         BasicShrinkage = [[Fin 1]], LedoitWolf = [[Fin 1]], Oracle = [[Fin 1]],
         scipy_linkage = (\<lambda>m. Inl (ValueErrorIn SciPy)), recursion_limit = 1000\<rparr>
         [''clusters'' \<mapsto> PyNone, ''_RiskMetrics'' \<mapsto> PyStr ''variance'',
            ''_Method'' \<mapsto> PyStr ''single'']
         (Some \<lparr>is_DataFrame = True, index_is_DatetimeIndex = True\<rparr>))
       = Inl (ValueErrorIn SciPy)
   \<and> Inl (ValueErrorIn SciPy) \<noteq> (Inl ValueError :: error + (string \<times> cell) list)"
  by (simp add: validate_def init_def risk_metric_names_def method_names_def lower_def
      lower_char_def optimize_def getattr_def risk_matrix_of_def linkage_of_def)

subsection \<open>\<open>plot\<close> after \<open>optimize\<close>\<close>










subsection \<open>The weights of the recursive bisection when every cluster variance is positive\<close>

declare path_weight.simps [simp del]

lemma positive_variances_step:
  "positive_variances cv cs \<Longrightarrow> positive_variances cv (bisection cs)"
  unfolding positive_variances_def
proof (intro allI)
  fix n
  assume a: "\<forall>n. \<forall>h \<in> set ((bisection ^^ Suc n) cs). \<exists>x. 0 < x \<and> getClusterVar cv h = Inr (Fin x)"
  have e: "(bisection ^^ Suc n) (bisection cs) = (bisection ^^ Suc (Suc n)) cs"
    by (simp only: funpow_Suc_right o_apply)
  from a have "\<forall>h \<in> set ((bisection ^^ Suc (Suc n)) cs).
      \<exists>x. 0 < x \<and> getClusterVar cv h = Inr (Fin x)" ..
  then show "\<forall>h \<in> set ((bisection ^^ Suc n) (bisection cs)).
      \<exists>x. 0 < x \<and> getClusterVar cv h = Inr (Fin x)"
    by (simp only: e)
qed

lemma positive_variances_now:
  "positive_variances cv cs \<Longrightarrow> h \<in> set (bisection cs) \<Longrightarrow>
   \<exists>x. 0 < x \<and> getClusterVar cv h = Inr (Fin x)"
  unfolding positive_variances_def
proof -
  assume a: "\<forall>n. \<forall>h \<in> set ((bisection ^^ Suc n) cs). \<exists>x. 0 < x \<and> getClusterVar cv h = Inr (Fin x)"
    and h: "h \<in> set (bisection cs)"
  have "(bisection ^^ Suc 0) cs = bisection cs" by simp
  with a [rule_format, of h 0] h show ?thesis by simp
qed

lemma halves_in_bisection:
  assumes "c \<in> set cs" and "1 < length c"
  shows "take (length c div 2) c \<in> set (bisection cs)"
    and "drop (length c div 2) c \<in> set (bisection cs)"
  using assms by (auto simp: bisection_parents parents_def)

lemma alloc_factor_positive:
  assumes "0 < x" and "0 < y"
  shows "alloc_factor (Fin x) (Fin y) = Fin (1 - x / (x + y))"
    and "fsub (Fin 1) (alloc_factor (Fin x) (Fin y)) = Fin (1 - (1 - x / (x + y)))"
    and "0 < 1 - x / (x + y)" and "1 - x / (x + y) < 1"
proof -
  from assms have s: "x + y \<noteq> 0" "0 < x + y" by simp_all
  show "alloc_factor (Fin x) (Fin y) = Fin (1 - x / (x + y))"
    using s by (simp add: alloc_factor_def fsub_def)
  then show "fsub (Fin 1) (alloc_factor (Fin x) (Fin y)) = Fin (1 - (1 - x / (x + y)))"
    by (simp add: fsub_def)
  from assms s show "0 < 1 - x / (x + y)" by (simp add: field_simps)
  from assms s show "1 - x / (x + y) < 1" by (simp add: field_simps)
qed

lemma cluster_unique:
  "distinct (concat cs) \<Longrightarrow> c \<in> set cs \<Longrightarrow> c' \<in> set cs \<Longrightarrow> k \<in> set c \<Longrightarrow> k \<in> set c' \<Longrightarrow>
   c = c'"
  by (induction cs) auto

lemma small_cluster_outside:
  assumes d: "distinct (concat cs)" and c: "c \<in> set cs" and k: "k \<in> set c"
    and s: "\<not> 1 < length c"
  shows "k \<notin> set (concat (bisection cs))"
proof
  assume "k \<in> set (concat (bisection cs))"
  then obtain c' where c': "c' \<in> set cs" "1 < length c'" "k \<in> set c'"
    by (auto simp: concat_bisection parents_def)
  from cluster_unique [OF d c c'(1) k c'(3)] s c'(2) show False by simp
qed

lemma variance_of_eq: "getClusterVar cv c = Inr (Fin x) \<Longrightarrow> variance_of cv c = x"
  by (simp add: variance_of_def)

lemma while_clusters_path_weight:
  "distinct (concat cs) \<Longrightarrow> positive_variances cv cs \<Longrightarrow>
   \<exists>w'. while_clusters cv cs w = Inr w' \<and> map fst w' = map fst w
     \<and> (\<forall>p < length w. \<forall>x. snd (w ! p) = Fin x \<longrightarrow>
           (\<forall>c \<in> set cs. fst (w ! p) \<in> set c \<longrightarrow>
              snd (w' ! p) = Fin (x * path_weight cv c (fst (w ! p))))
         \<and> (fst (w ! p) \<notin> set (concat cs) \<longrightarrow> snd (w' ! p) = Fin x))"
proof (induction cv cs w rule: while_clusters.induct)
  case (1 cv cs w)
  show ?case
  proof (cases "cs = []")
    case True
    then show ?thesis by simp
  next
    case False
    let ?ps = "bisection cs"
    note dc = "1.prems"(1)
    have d: "distinct (concat ?ps)"
      by (rule distinct_concat_bisection [OF dc])
    have pv: "positive_variances cv ?ps"
      by (rule positive_variances_step [OF "1.prems"(2)])
    have var: "\<exists>x. 0 < x \<and> getClusterVar cv h = Inr (Fin x)" if "h \<in> set ?ps" for h
      by (rule positive_variances_now [OF "1.prems"(2) that])
    then have "\<forall>h \<in> set ?ps. \<exists>x. getClusterVar cv h = Inr x"
      by blast
    from alloc_pairs_succeeds [OF this even_length_bisection]
    obtain w1 where w1: "alloc_pairs cv ?ps w = Inr w1" by blast
    have keys1: "map fst w1 = map fst w" by (rule alloc_pairs_keys [OF w1])
    have len1: "length w1 = length w" by (rule alloc_pairs_length [OF w1])
    have fsts: "fst (w1 ! p) = fst (w ! p)" if "p < length w" for p
    proof -
      have "map fst w1 ! p = map fst w ! p" by (simp only: keys1)
      with that len1 show ?thesis by simp
    qed
    from "1.IH" [OF False w1 d pv] obtain w' where
      run: "while_clusters cv ?ps w1 = Inr w'" and keys: "map fst w' = map fst w1" and
      rest: "\<forall>p < length w1. \<forall>x. snd (w1 ! p) = Fin x \<longrightarrow>
           (\<forall>c \<in> set ?ps. fst (w1 ! p) \<in> set c \<longrightarrow>
              snd (w' ! p) = Fin (x * path_weight cv c (fst (w1 ! p))))
         \<and> (fst (w1 ! p) \<notin> set (concat ?ps) \<longrightarrow> snd (w' ! p) = Fin x)"
      by blast
    have whole: "while_clusters cv cs w = Inr w'"
      using while_clusters.simps [of cv cs w] False w1 run
      by (simp del: while_clusters.simps)
    have untouched: "snd (w' ! p) = Fin x"
      if p: "p < length w" and x: "snd (w ! p) = Fin x"
        and k: "fst (w ! p) \<notin> set (concat ?ps)" for p x
    proof -
      have same: "w1 ! p = w ! p" by (rule alloc_pairs_outside [OF w1 p k])
      from rest p len1 have "fst (w1 ! p) \<notin> set (concat ?ps) \<longrightarrow> snd (w' ! p) = Fin x"
        using x same by simp
      with k same show ?thesis by simp
    qed
    have inside: "snd (w' ! p) = Fin (x * path_weight cv c (fst (w ! p)))"
      if p: "p < length w" and x: "snd (w ! p) = Fin x" and c: "c \<in> set cs"
        and k: "fst (w ! p) \<in> set c" for p x c
    proof (cases "1 < length c")
      case False
      have out: "fst (w ! p) \<notin> set (concat ?ps)"
        by (rule small_cluster_outside [OF dc c k False])
      have "path_weight cv c (fst (w ! p)) = 1"
        using False by (simp add: path_weight.simps)
      with untouched [OF p x out] show ?thesis by simp
    next
      case True
      let ?L = "take (length c div 2) c" and ?R = "drop (length c div 2) c"
      from c True have "c \<in> set (parents cs)" by (simp add: parents_def)
      then obtain j where j: "j < length (parents cs)" "parents cs ! j = c"
        by (auto simp: in_set_conv_nth)
      have at: "?ps ! (2 * j) = ?L" "?ps ! (2 * j + 1) = ?R"
        using bisection_nth [OF j(1)] j(2) by simp_all
      have in_range: "2 * j + 1 < length ?ps"
        using j(1) by (simp add: bisection_length)
      have L: "?L \<in> set ?ps" and R: "?R \<in> set ?ps"
        by (rule halves_in_bisection [OF c True])+
      from var [OF L] obtain xl where xl: "0 < xl" "getClusterVar cv ?L = Inr (Fin xl)"
        by blast
      from var [OF R] obtain xr where xr: "0 < xr" "getClusterVar cv ?R = Inr (Fin xr)"
        by blast
      from alloc_pairs_pair [OF w1 d in_range] at xl(2) xr(2) have
        sc: "\<forall>p < length w.
            (fst (w ! p) \<in> set ?L \<longrightarrow>
               snd (w1 ! p) = fmul (snd (w ! p)) (alloc_factor (Fin xl) (Fin xr)))
          \<and> (fst (w ! p) \<in> set ?R \<longrightarrow>
               snd (w1 ! p) = fmul (snd (w ! p)) (fsub (Fin 1) (alloc_factor (Fin xl) (Fin xr))))"
        by auto
      have sf: "split_factor cv c = 1 - xl / (xl + xr)"
        by (simp add: split_factor_def variance_of_eq [OF xl(2)] variance_of_eq [OF xr(2)])
      note af = alloc_factor_positive(1,2) [OF xl(1) xr(1)]
      show ?thesis
      proof (cases "fst (w ! p) \<in> set ?L")
        case True
        with sc p have "snd (w1 ! p) = fmul (snd (w ! p)) (alloc_factor (Fin xl) (Fin xr))"
          by simp
        then have v1: "snd (w1 ! p) = Fin (x * split_factor cv c)"
          by (simp add: x af sf)
        from rest p len1 v1 L True fsts [OF p]
        have "snd (w' ! p) = Fin (x * split_factor cv c * path_weight cv ?L (fst (w ! p)))"
          by simp
        moreover have "path_weight cv c (fst (w ! p))
            = split_factor cv c * path_weight cv ?L (fst (w ! p))"
          using \<open>1 < length c\<close> True by (subst path_weight.simps) simp
        ultimately show ?thesis by (simp add: mult.assoc)
      next
        case False
        have "set c = set ?L \<union> set ?R"
          using set_append [of ?L ?R] by (simp only: append_take_drop_id)
        with k False have kR: "fst (w ! p) \<in> set ?R" by blast
        with sc p have "snd (w1 ! p)
            = fmul (snd (w ! p)) (fsub (Fin 1) (alloc_factor (Fin xl) (Fin xr)))"
          by simp
        then have v1: "snd (w1 ! p) = Fin (x * (1 - split_factor cv c))"
          by (simp only: x af(2) sf fmul.simps)
        from rest p len1 v1 R kR fsts [OF p]
        have "snd (w' ! p) = Fin (x * (1 - split_factor cv c) * path_weight cv ?R (fst (w ! p)))"
          by simp
        moreover have "path_weight cv c (fst (w ! p))
            = (1 - split_factor cv c) * path_weight cv ?R (fst (w ! p))"
          using \<open>1 < length c\<close> False by (subst path_weight.simps) simp
        ultimately show ?thesis by (simp add: mult.assoc)
      qed
    qed
    have outside: "snd (w' ! p) = Fin x"
      if p: "p < length w" and x: "snd (w ! p) = Fin x"
        and k: "fst (w ! p) \<notin> set (concat cs)" for p x
    proof -
      have "set (concat ?ps) \<subseteq> set (concat cs)"
        using set_concat_parents [of cs] by (simp add: concat_bisection)
      with k have "fst (w ! p) \<notin> set (concat ?ps)" by blast
      from untouched [OF p x this] show ?thesis .
    qed
    have "map fst w' = map fst w" using keys keys1 by simp
    with whole inside outside show ?thesis by blast
  qed
qed

lemma path_weight_sum:
  "c \<noteq> [] \<Longrightarrow> distinct c \<Longrightarrow> (\<Sum>k \<leftarrow> c. path_weight cv c k) = 1"
proof (induction "length c" arbitrary: c rule: less_induct)
  case less
  show ?case
  proof (cases "length c \<le> 1")
    case True
    with less.prems(1) obtain k where "c = [k]"
      by (cases c) auto
    then show ?thesis by (simp add: path_weight.simps)
  next
    case False
    let ?L = "take (length c div 2) c" and ?R = "drop (length c div 2) c"
    define a where "a = split_factor cv c"
    have c: "c = ?L @ ?R" by simp
    from False have ne: "?L \<noteq> []" "?R \<noteq> []" by auto
    from False have lt: "length ?L < length c" "length ?R < length c" by auto
    from less.prems(2) have dd: "distinct (?L @ ?R)" by simp
    then have dL: "distinct ?L" and dR: "distinct ?R" and disj: "set ?L \<inter> set ?R = {}"
      by (simp_all only: distinct_append) 
    have inL: "path_weight cv c k = a * path_weight cv ?L k" if "k \<in> set ?L" for k
      using False that unfolding a_def by (subst path_weight.simps) simp
    have inR: "path_weight cv c k = (1 - a) * path_weight cv ?R k" if "k \<in> set ?R" for k
    proof -
      from that disj have "k \<notin> set ?L" by blast
      with False show ?thesis unfolding a_def by (subst path_weight.simps) simp
    qed
    have sL: "(\<Sum>k \<leftarrow> ?L. path_weight cv c k) = a * (\<Sum>k \<leftarrow> ?L. path_weight cv ?L k)"
    proof -
      have "map (path_weight cv c) ?L = map (\<lambda>k. a * path_weight cv ?L k) ?L"
        using inL by (intro map_cong refl) 
      then show ?thesis by (simp only: sum_list_const_mult)
    qed
    have sR: "(\<Sum>k \<leftarrow> ?R. path_weight cv c k) = (1 - a) * (\<Sum>k \<leftarrow> ?R. path_weight cv ?R k)"
    proof -
      have "map (path_weight cv c) ?R = map (\<lambda>k. (1 - a) * path_weight cv ?R k) ?R"
        using inR by (intro map_cong refl) 
      then show ?thesis by (simp only: sum_list_const_mult)
    qed
    have "(\<Sum>k \<leftarrow> c. path_weight cv c k)
        = (\<Sum>k \<leftarrow> ?L. path_weight cv c k) + (\<Sum>k \<leftarrow> ?R. path_weight cv c k)"
    proof -
      have "map (path_weight cv c) c = map (path_weight cv c) ?L @ map (path_weight cv c) ?R"
        by (simp only: map_append [symmetric] append_take_drop_id)
      then show ?thesis by (simp only: sum_list_append)
    qed
    also have "\<dots> = a * 1 + (1 - a) * 1"
      by (simp only: sL sR less.hyps [OF lt(1) ne(1) dL] less.hyps [OF lt(2) ne(2) dR])
    finally show ?thesis by simp
  qed
qed

lemma path_weight_positive:
  "positive_variances cv cs \<Longrightarrow> c \<in> set cs \<Longrightarrow> 0 < path_weight cv c k"
proof (induction "length c" arbitrary: c cs rule: less_induct)
  case less
  show ?case
  proof (cases "length c \<le> 1")
    case True
    then show ?thesis by (simp add: path_weight.simps)
  next
    case False
    let ?L = "take (length c div 2) c" and ?R = "drop (length c div 2) c"
    from False have big: "1 < length c" by simp
    from False have lt: "length ?L < length c" "length ?R < length c" by auto
    have L: "?L \<in> set (bisection cs)" and R: "?R \<in> set (bisection cs)"
      by (rule halves_in_bisection [OF less.prems(2) big])+
    note pv = positive_variances_step [OF less.prems(1)]
    from positive_variances_now [OF less.prems(1) L]
    obtain xl where xl: "0 < xl" "getClusterVar cv ?L = Inr (Fin xl)" by blast
    from positive_variances_now [OF less.prems(1) R]
    obtain xr where xr: "0 < xr" "getClusterVar cv ?R = Inr (Fin xr)" by blast
    have sf: "split_factor cv c = 1 - xl / (xl + xr)"
      by (simp add: split_factor_def variance_of_eq [OF xl(2)] variance_of_eq [OF xr(2)])
    from alloc_factor_positive(3,4) [OF xl(1) xr(1)]
    have a: "0 < split_factor cv c" "0 < 1 - split_factor cv c"
      by (simp_all add: sf)
    have pL: "0 < path_weight cv ?L k" by (rule less.hyps [OF lt(1) pv L])
    have pR: "0 < path_weight cv ?R k" by (rule less.hyps [OF lt(2) pv R])
    have "path_weight cv c k =
        (if k \<in> set ?L then split_factor cv c * path_weight cv ?L k
         else (1 - split_factor cv c) * path_weight cv ?R k)"
      using False by (subst path_weight.simps) simp
    with a pL pR show ?thesis by simp
  qed
qed

lemma zip_names_weights:
  "zip (map (\<lambda>p. assets ! p) (map nat l)) (map (\<lambda>i. Fin (f i)) l)
     = map (\<lambda>i. (assets ! nat i, Fin (f i))) l"
  by (induction l) simp_all

lemma getRecBipart_path_weight:
  assumes d: "distinct ordered_indices" and ne: "ordered_indices \<noteq> []"
    and rng: "set ordered_indices \<subseteq> {0 ..< int (length assets)}"
    and pv: "positive_variances cv [ordered_indices]"
  shows "getRecBipart cv assets ordered_indices
           = Inr (map (\<lambda>i. (assets ! nat i, Fin (path_weight cv ordered_indices i)))
                   ordered_indices)"
    and "\<forall>i \<in> set ordered_indices. 0 < path_weight cv ordered_indices i"
    and "(\<Sum>i \<leftarrow> ordered_indices. path_weight cv ordered_indices i) = 1"
proof -
  let ?w0 = "map (\<lambda>i. (i, Fin 1)) ordered_indices"
  have dc: "distinct (concat [ordered_indices])" using d by simp
  from while_clusters_path_weight [OF dc pv, of ?w0] obtain w' where
    w': "while_clusters cv [ordered_indices] ?w0 = Inr w'" and
    keys: "map fst w' = map fst ?w0" and
    vals: "\<forall>p < length ?w0. \<forall>x. snd (?w0 ! p) = Fin x \<longrightarrow>
           (\<forall>c \<in> set [ordered_indices]. fst (?w0 ! p) \<in> set c \<longrightarrow>
              snd (w' ! p) = Fin (x * path_weight cv c (fst (?w0 ! p))))
         \<and> (fst (?w0 ! p) \<notin> set (concat [ordered_indices]) \<longrightarrow> snd (w' ! p) = Fin x)"
    by blast
  have len: "length w' = length ordered_indices"
  proof -
    have "length (map fst w') = length (map fst ?w0)" by (simp only: keys)
    then show ?thesis by simp
  qed
  have at: "snd (w' ! p) = Fin (path_weight cv ordered_indices (ordered_indices ! p))"
    if "p < length ordered_indices" for p
  proof -
    from that have "snd (?w0 ! p) = Fin 1" "fst (?w0 ! p) = ordered_indices ! p"
      "ordered_indices ! p \<in> set ordered_indices" "p < length ?w0"
      by simp_all
    with vals show ?thesis by simp
  qed
  have snds: "map snd w' = map (\<lambda>i. Fin (path_weight cv ordered_indices i)) ordered_indices"
    using at len by (intro nth_equalityI) simp_all
  have pos: "traverse (position AssetIndex (length assets)) ordered_indices
               = Inr (map nat ordered_indices)"
    by (rule traverse_position [OF rng])
  show "getRecBipart cv assets ordered_indices
           = Inr (map (\<lambda>i. (assets ! nat i, Fin (path_weight cv ordered_indices i)))
                   ordered_indices)"
    unfolding getRecBipart_def Let_def w' pos snds sum.case zip_names_weights ..
  have "ordered_indices \<in> set [ordered_indices]" by simp
  from path_weight_positive [OF pv this]
  show "\<forall>i \<in> set ordered_indices. 0 < path_weight cv ordered_indices i" by blast
  show "(\<Sum>i \<leftarrow> ordered_indices. path_weight cv ordered_indices i) = 1"
    by (rule path_weight_sum [OF ne d])
qed

subsection \<open>Rounding, renormalisation and the columns of the table\<close>

lemma rint_floor: "\<lfloor>x\<rfloor> \<le> rint x"
  by (simp add: rint_def Let_def)

lemma round8_nonneg: "0 \<le> x \<Longrightarrow> 0 \<le> round8 x"
proof -
  assume "0 \<le> x"
  then have "0 \<le> \<lfloor>x * 10 ^ 8\<rfloor>" by simp
  with rint_floor [of "x * 10 ^ 8"] have "0 \<le> rint (x * 10 ^ 8)" by linarith
  then show ?thesis by (simp add: round8_def)
qed

lemma round8_positive: "1 / 10 ^ 8 \<le> x \<Longrightarrow> 0 < round8 x"
proof -
  assume "1 / 10 ^ 8 \<le> x"
  then have "1 \<le> x * 10 ^ 8" by (simp add: field_simps)
  then have "1 \<le> \<lfloor>x * 10 ^ 8\<rfloor>" by linarith
  with rint_floor [of "x * 10 ^ 8"] have "0 < rint (x * 10 ^ 8)" by linarith
  then show ?thesis by (simp add: round8_def)
qed

lemma sum_list_below:
  fixes xs :: "real list"
  shows "xs \<noteq> [] \<Longrightarrow> \<forall>x \<in> set xs. x < c \<Longrightarrow> sum_list xs < real (length xs) * c"
proof (induction xs)
  case Nil
  then show ?case by simp
next
  case (Cons x xs)
  show ?case
  proof (cases "xs = []")
    case True
    with Cons.prems show ?thesis by simp
  next
    case False
    from Cons.IH [OF False] Cons.prems(2) have "sum_list xs < real (length xs) * c" by simp
    moreover from Cons.prems(2) have "x < c" by simp
    ultimately show ?thesis by (simp add: algebra_simps)
  qed
qed

lemma large_member:
  fixes xs :: "real list"
  assumes "sum_list xs = 1"
  shows "\<exists>x \<in> set xs. 1 / real (length xs) \<le> x"
proof (rule ccontr)
  assume "\<not> (\<exists>x \<in> set xs. 1 / real (length xs) \<le> x)"
  then have b: "\<forall>x \<in> set xs. x < 1 / real (length xs)" by auto
  from assms have ne: "xs \<noteq> []" by auto
  from sum_list_below [OF ne b] have "sum_list xs < real (length xs) * (1 / real (length xs))" .
  also from ne have "\<dots> = 1" by simp
  finally show False using assms by simp
qed

lemma rounded_total_positive:
  fixes xs :: "real list"
  assumes nn: "\<forall>x \<in> set xs. 0 \<le> x" and one: "sum_list xs = 1"
    and n: "length xs \<le> 10 ^ 8"
  shows "0 < sum_list (map round8 xs)"
proof -
  from large_member [OF one] obtain x where x: "x \<in> set xs" "1 / real (length xs) \<le> x"
    by blast
  from one have "xs \<noteq> []" by auto
  then have pos: "0 < real (length xs)" by simp
  from n have "real (length xs) \<le> 10 ^ 8"
    by (metis of_nat_le_iff of_nat_numeral of_nat_power)
  with pos have "1 / 10 ^ 8 \<le> 1 / real (length xs)"
    by (simp add: field_simps)
  with x(2) have "1 / 10 ^ 8 \<le> x" by linarith
  then have rx: "0 < round8 x" by (rule round8_positive)
  have all: "\<forall>y \<in> set (map round8 xs). 0 \<le> y"
    using nn round8_nonneg by auto
  have "round8 x \<in> set (map round8 xs)" using x(1) by simp
  from member_le_sum_list [OF this] all have "round8 x \<le> sum_list (map round8 xs)"
    by simp
  with rx show ?thesis by linarith
qed

lemma sum_list_of_concat:
  fixes xss :: "real list list"
  shows "sum_list (concat xss) = sum_list (map sum_list xss)"
  by (induction xss) simp_all

lemma sum_list_divided:
  fixes f :: "'a \<Rightarrow> real"
  shows "sum_list (map (\<lambda>x. f x / c) xs) = sum_list (map f xs) / c"
  by (induction xs) (simp_all add: add_divide_distrib)

lemma concat_map_single:
  "(\<And>a. a \<in> set xs \<Longrightarrow> f a = [g a]) \<Longrightarrow> concat (map f xs) = map g xs"
  by (induction xs) simp_all

lemma sum_list_permuted:
  fixes f :: "'a \<Rightarrow> real"
  assumes "mset xs = mset ys"
  shows "sum_list (map f xs) = sum_list (map f ys)"
proof -
  have "mset (map f xs) = mset (map f ys)"
    by (simp only: mset_map assms)
  then have "sum_mset (mset (map f xs)) = sum_mset (mset (map f ys))"
    by (rule arg_cong)
  then show ?thesis by (simp only: sum_mset_sum_list)
qed

lemma select_absent:
  "a \<notin> fst ` set M \<Longrightarrow> concat (map (\<lambda>(b, c). if b = a then f c else []) M) = []"
  by (induction M) auto

lemma select_label:
  "distinct (map fst M) \<Longrightarrow> (a, c) \<in> set M \<Longrightarrow>
   concat (map (\<lambda>(b, c'). if b = a then f c' else []) M) = f c"
proof (induction M)
  case Nil
  then show ?case by simp
next
  case (Cons e M)
  obtain b c' where e: "e = (b, c')" by (cases e)
  show ?case
  proof (cases "b = a")
    case True
    with Cons.prems e have out: "a \<notin> fst ` set M" by auto
    with Cons.prems(2) e True have "c' = c" by force
    with True e select_absent [OF out, of f] show ?thesis by simp
  next
    case False
    with Cons.prems e have "(a, c) \<in> set M" "distinct (map fst M)" by auto
    from Cons.IH [OF this(2,1)] False e show ?thesis by simp
  qed
qed

lemma map_of_entry:
  "distinct (map fst P) \<Longrightarrow> e \<in> set P \<Longrightarrow> map_of P (fst e) = Some (snd e)"
  by (cases e) simp

lemma postprocess_table:
  assumes snds: "map snd P = map Fin xs"
    and dP: "distinct (map fst P)" and dn: "distinct names"
    and names: "set names = fst ` set P"
    and nn: "\<forall>x \<in> set xs. 0 \<le> x" and one: "sum_list xs = 1"
    and n: "length xs \<le> 10 ^ 8"
  shows "0 < sum_list (map round8 xs)
    \<and> (\<exists>table. postprocess names P = Inr table
          \<and> map fst table = names
          \<and> (\<forall>a x. (a, Fin x) \<in> set P \<longrightarrow>
                (a, if round8 x = 0 then Text ''nan''
                    else Number (Fin (round8 x / sum_list (map round8 xs)))) \<in> set table)
          \<and> (\<forall>y \<in> set (numbers table). 0 < y)
          \<and> sum_list (numbers table) = 1)"
proof -
  define T where "T = sum_list (map round8 xs)"
  have Tpos: "0 < T"
    unfolding T_def by (rule rounded_total_positive [OF nn one n])
  define G where "G v = (if fdiv (round8f v) (Fin T) = Fin 0 then Text ''nan''
                         else Number (fdiv (round8f v) (Fin T)))" for v
  define r where "r v = (case v of Fin x \<Rightarrow> x | _ \<Rightarrow> 0)" for v :: fl
  have G_Fin: "G (Fin x) = (if round8 x = 0 then Text ''nan'' else Number (Fin (round8 x / T)))"
    for x
    using Tpos by (simp add: G_def)
  have fin: "\<exists>x. v = Fin x \<and> 0 \<le> x" if "v \<in> set (map snd P)" for v
    using that nn unfolding snds by auto
  have entry: "\<exists>x. snd e = Fin x \<and> 0 \<le> x" if "e \<in> set P" for e
    using fin [of "snd e"] that by simp
  have total: "fsum (filter (\<lambda>x. x \<noteq> NaN) (map snd (map (\<lambda>(a, x). (a, round8f x)) P))) = Fin T"
  proof -
    have "map snd (map (\<lambda>(a, x). (a, round8f x)) P) = map round8f (map snd P)"
      by (simp add: case_prod_beta)
    also have "\<dots> = map (\<lambda>x. Fin (round8 x)) xs"
      by (simp add: snds)
    finally have e: "map snd (map (\<lambda>(a, x). (a, round8f x)) P) = map (\<lambda>x. Fin (round8 x)) xs" .
    have "filter (\<lambda>x. x \<noteq> NaN) (map (\<lambda>x. Fin (round8 x)) xs) = map (\<lambda>x. Fin (round8 x)) xs"
      by (induction xs) simp_all
    then show ?thesis
      unfolding e T_def by (simp only: fsum_Fin)
  qed
  define marked where "marked = map (\<lambda>(a, v). (a, G v)) P"
  have marked: "map (\<lambda>(a, x). (a, if x = Fin 0 then Text ''nan'' else Number x))
          (map (\<lambda>(a, x). (a, fdiv x (Fin T))) (map (\<lambda>(a, x). (a, round8f x)) P)) = marked"
    unfolding marked_def by (simp add: case_prod_beta G_def)
  have keys: "fst ` set marked = fst ` set P"
    unfolding marked_def by (force simp: case_prod_beta)
  have look: "map_of marked a = map_option G (map_of P a)" for a
    unfolding marked_def by (simp add: map_of_map)
  define table where "table = map (\<lambda>a. (a, G (the (map_of P a)))) names"
  have name_entry: "\<exists>x. map_of P a = Some (Fin x) \<and> 0 \<le> x" if "a \<in> set names" for a
  proof -
    from that names obtain e where e: "e \<in> set P" "fst e = a" by auto
    from entry [OF e(1)] obtain x where "snd e = Fin x" "0 \<le> x" by blast
    with map_of_entry [OF dP e(1)] e(2) show ?thesis by simp
  qed
  have dm: "distinct (map fst marked)"
    unfolding marked_def using dP by (simp add: case_prod_beta comp_def)
  have sel: "[(a, c). a \<leftarrow> names, (b, c) \<leftarrow> marked, b = a, c \<noteq> Number NaN] = table"
    unfolding table_def
  proof (rule concat_map_single)
    fix a assume a: "a \<in> set names"
    from name_entry [OF a] obtain x where x: "map_of P a = Some (Fin x)" by blast
    then have "(a, Fin x) \<in> set P" by (rule map_of_SomeD)
    then have "(\<lambda>(a, v). (a, G v)) (a, Fin x) \<in> set marked"
      unfolding marked_def set_map by (rule imageI)
    then have m: "(a, G (Fin x)) \<in> set marked" by simp
    have ok: "G (Fin x) \<noteq> Number NaN" by (simp add: G_Fin)
    from select_label [OF dm m, of "\<lambda>c. if c \<noteq> Number NaN then [(a, c)] else []"] ok
    show "concat (map (\<lambda>(b, c). if b = a then if c \<noteq> Number NaN then [(a, c)] else [] else [])
                 marked) = [(a, G (the (map_of P a)))]"
      by (simp add: x)
  qed
  have post: "postprocess names P = Inr table"
    unfolding postprocess_def Let_def total marked
    using names keys sel by simp
  have fsts: "map fst table = names"
    unfolding table_def by (simp add: comp_def)
  have cells: "(a, if round8 x = 0 then Text ''nan'' else Number (Fin (round8 x / T))) \<in> set table"
    if "(a, Fin x) \<in> set P" for a x
  proof -
    from that names have a: "a \<in> set names" by force
    from map_of_entry [OF dP that] have "map_of P a = Some (Fin x)" by simp
    with a show ?thesis
      unfolding table_def by (force simp: G_Fin)
  qed
  define h where "h = (\<lambda>(a :: string, c). case c of Number (Fin x) \<Rightarrow> [x] | _ \<Rightarrow> [])"
  have num: "numbers table = concat (map h table)"
    by (simp add: numbers_def h_def)
  have h_G: "h (a, G (Fin x)) = (if round8 x = 0 then [] else [round8 x / T])" for a x
    by (simp add: h_def G_Fin)
  have positive: "\<forall>y \<in> set (numbers table). 0 < y"
  proof
    fix y assume "y \<in> set (numbers table)"
    then have "y \<in> set (concat (map h table))" by (simp only: num)
    then obtain a where a: "a \<in> set names" "y \<in> set (h (a, G (the (map_of P a))))"
      unfolding table_def by auto
    from name_entry [OF a(1)] obtain x where x: "map_of P a = Some (Fin x)" "0 \<le> x" by blast
    from a(2) have y: "round8 x \<noteq> 0" "y = round8 x / T"
      by (simp_all add: x h_G split: if_splits)
    from round8_nonneg [OF x(2)] y(1) have "0 < round8 x" by simp
    with Tpos show "0 < y" by (simp add: y(2))
  qed
  have "sum_list (numbers table) = 1"
  proof -
    define g where "g a = round8 (r (the (map_of P a))) / T" for a
    have one_cell: "sum_list (h (a, G (the (map_of P a)))) = g a" if "a \<in> set names" for a
    proof -
      from name_entry [OF that] obtain x where x: "map_of P a = Some (Fin x)" by blast
      show ?thesis by (simp add: x h_G g_def r_def)
    qed
    have "sum_list (numbers table) = sum_list (concat (map h table))"
      by (simp only: num)
    also have "\<dots> = sum_list (map (\<lambda>a. sum_list (h (a, G (the (map_of P a))))) names)"
      unfolding table_def by (simp add: sum_list_of_concat comp_def)
    also have "\<dots> = sum_list (map g names)"
      using one_cell by (intro arg_cong [where f = sum_list] map_cong refl)
    also have "\<dots> = sum_list (map g (map fst P))"
    proof (rule sum_list_permuted)
      have "set names = set (map fst P)" using names by simp
      with dn dP show "mset names = mset (map fst P)"
        by (simp only: set_eq_iff_mset_eq_distinct)
    qed
    also have "\<dots> = sum_list (map (\<lambda>e. round8 (r (snd e)) / T) P)"
    proof -
      have "g (fst e) = round8 (r (snd e)) / T" if "e \<in> set P" for e
        using map_of_entry [OF dP that] by (simp add: g_def)
      then have "map (g \<circ> fst) P = map (\<lambda>e. round8 (r (snd e)) / T) P"
        by (intro map_cong refl) simp
      then show ?thesis by (simp only: map_map)
    qed
    also have "\<dots> = sum_list (map (\<lambda>v. round8 (r v) / T) (map snd P))"
      by (simp add: comp_def)
    also have "\<dots> = sum_list (map (\<lambda>x. round8 x / T) xs)"
      unfolding snds by (simp add: comp_def r_def)
    also have "\<dots> = sum_list (map round8 xs) / T"
      by (rule sum_list_divided)
    also have "\<dots> = 1"
      using Tpos by (simp add: T_def)
    finally show ?thesis .
  qed
  with post fsts cells positive Tpos show ?thesis
    unfolding T_def by blast
qed

subsection \<open>The table of \<open>optimize\<close> when every cluster variance is positive\<close>

lemma quasi_diag_order:
  assumes "merge_tree cluster n" and "getQuasiDiag depth cluster n (2 * n - 2) = Inr xs"
  shows "distinct xs" and "set xs = {0 ..< n}" and "length xs = nat n"
proof -
  from assms(1) have b: "bounded_children cluster n"
    and len: "int (length cluster) = n - 1" and n2: "2 \<le> n"
    by (auto simp: merge_tree_def)
  have root: "0 \<le> 2 * n - 2" "2 * n - 2 < n + int (length cluster)"
    using len n2 by auto
  have lv: "leaves cluster n (2 * n - 2) = mset_set {0 ..< n}"
    by (rule root_leaves [OF assms(1)])
  from leaves_eq [OF assms(2) b root] lv have "mset xs = mset_set {0 ..< n}" by simp
  from perm_of_mset_set [OF this]
  show "distinct xs" and "set xs = {0 ..< n}" and "length xs = nat n" by simp_all
qed

lemma names_by_order:
  assumes d: "distinct ordered" and s: "set ordered = {0 ..< int (length assets)}"
    and dn: "distinct assets"
  shows "distinct (map (\<lambda>i. assets ! nat i) ordered)"
    and "(\<lambda>i. assets ! nat i) ` set ordered = set assets"
proof -
  have "inj_on (\<lambda>i. assets ! nat i) (set ordered)"
  proof (rule inj_onI)
    fix i j assume i: "i \<in> set ordered" and j: "j \<in> set ordered"
      and e: "assets ! nat i = assets ! nat j"
    from i j s have "nat i < length assets" "nat j < length assets" "0 \<le> i" "0 \<le> j"
      by auto
    with e dn show "i = j" by (simp add: nth_eq_iff_index_eq)
  qed
  with d show "distinct (map (\<lambda>i. assets ! nat i) ordered)"
    by (simp add: distinct_map)
  show "(\<lambda>i. assets ! nat i) ` set ordered = set assets"
  proof
    show "(\<lambda>i. assets ! nat i) ` set ordered \<subseteq> set assets"
      using s by auto
    show "set assets \<subseteq> (\<lambda>i. assets ! nat i) ` set ordered"
    proof
      fix a assume "a \<in> set assets"
      then obtain k where k: "k < length assets" "assets ! k = a"
        by (auto simp: in_set_conv_nth)
      then have "int k \<in> set ordered" using s by simp
      moreover have "assets ! nat (int k) = a" using k(2) by simp
      ultimately show "a \<in> (\<lambda>i. assets ! nat i) ` set ordered" by force
    qed
  qed
qed

text \<open>
  What \<open>optimize\<close> returns on a constructed instance for a table that passes the checks,
  when the linkage is a merge tree over the assets, the asset labels differ, there are
  at most \<open>10^8\<close> assets, and every cluster of the bisection has a positive cluster
  variance. A table is returned with one column for every asset; its numbers are
  positive and sum to 1; and an asset whose weight rounds to zero keeps its column,
  which holds the string \<open>'nan'\<close>. The arithmetic is without rounding error.
\<close>

lemma optimize_table:
  assumes t: "is_DataFrame t" "index_is_DatetimeIndex t"
    and init: "init RiskMetrics Method = Inr self"
    and cv: "risk_matrix_of ext (PyStr (lower RiskMetrics)) = Inr cv"
    and link: "scipy_linkage ext (lower Method) = Inr clusters"
    and tree: "merge_tree clusters (int (length (asset_names ext)))"
    and q: "getQuasiDiag (recursion_limit ext) clusters (int (length (asset_names ext)))
              (2 * int (length (asset_names ext)) - 2) = Inr ordered"
    and pv: "positive_variances cv [ordered]"
    and dn: "distinct (asset_names ext)" and n: "length (asset_names ext) \<le> 10 ^ 8"
  shows "\<exists>table. optimize ext self (Some t)
                   = (self(''clusters'' \<mapsto> PyLinkage clusters), Inr table)
      \<and> map fst table = asset_names ext
      \<and> (\<forall>y \<in> set (numbers table). 0 < y)
      \<and> sum_list (numbers table) = 1
      \<and> (\<forall>k < length (asset_names ext).
            round8 (path_weight cv ordered (int k)) = 0 \<longrightarrow>
            (asset_names ext ! k, Text ''nan'') \<in> set table)"
proof -
  let ?names = "asset_names ext"
  let ?N = "length ?names"
  note o = quasi_diag_order [OF tree q]
  from tree have N2: "2 \<le> ?N" by (simp add: merge_tree_def)
  from o(3) N2 have ne: "ordered \<noteq> []" by auto
  have rng: "set ordered \<subseteq> {0 ..< int ?N}" using o(2) by simp
  note w = getRecBipart_path_weight [OF o(1) ne rng pv]
  let ?P = "map (\<lambda>i. (?names ! nat i, Fin (path_weight cv ordered i))) ordered"
  let ?xs = "map (path_weight cv ordered) ordered"
  have snds: "map snd ?P = map Fin ?xs" by (simp add: comp_def)
  have fsts: "map fst ?P = map (\<lambda>i. ?names ! nat i) ordered" by (simp add: comp_def)
  note nb = names_by_order [OF o(1,2) dn]
  have dP: "distinct (map fst ?P)" unfolding fsts by (rule nb(1))
  have keys: "set ?names = fst ` set ?P"
  proof -
    have "fst ` set ?P = set (map fst ?P)" by (simp only: set_map)
    also have "\<dots> = (\<lambda>i. ?names ! nat i) ` set ordered" unfolding fsts by simp
    finally show ?thesis using nb(2) by simp
  qed
  have nn: "\<forall>x \<in> set ?xs. 0 \<le> x" using w(2) by auto
  have one: "sum_list ?xs = 1" by (rule w(3))
  have len: "length ?xs \<le> 10 ^ 8" using n o(3) by simp
  from postprocess_table [OF snds dP dn keys nn one len] obtain table where
    post: "postprocess ?names ?P = Inr table" and cols: "map fst table = ?names" and
    cells: "\<forall>a x. (a, Fin x) \<in> set ?P \<longrightarrow>
                (a, if round8 x = 0 then Text ''nan''
                    else Number (Fin (round8 x / sum_list (map round8 ?xs)))) \<in> set table" and
    pos: "\<forall>y \<in> set (numbers table). 0 < y" and sum: "sum_list (numbers table) = 1"
    by blast
  have v: "validate (Some t) = None"
    using t by (simp add: validate_def)
  note g = getattr_init(1,2) [OF init]
  have l: "linkage_of ext (lower Method) = Inr clusters"
    using N2 link by (simp add: linkage_of_def)
  have run: "optimize ext self (Some t) = (self(''clusters'' \<mapsto> PyLinkage clusters), Inr table)"
    using v g cv l q w(1) post by (simp add: optimize_def)
  have zero: "(?names ! k, Text ''nan'') \<in> set table"
    if k: "k < ?N" and z: "round8 (path_weight cv ordered (int k)) = 0" for k
  proof -
    from k o(2) have "int k \<in> set ordered" by simp
    then have "(\<lambda>i. (?names ! nat i, Fin (path_weight cv ordered i))) (int k) \<in> set ?P"
      unfolding set_map by (rule imageI)
    then have "(?names ! k, Fin (path_weight cv ordered (int k))) \<in> set ?P"
      by simp
    with cells z show ?thesis by fastforce
  qed
  from run cols pos sum zero show ?thesis by blast
qed

lemma funpow_bisection_Nil: "(bisection ^^ n) [] = []"
  by (induction n) (simp_all add: bisection_Nil)

text \<open>
  An instance: two uncorrelated assets with the variances \<open>1\<close> and \<open>10^9\<close>. Every cluster
  variance is positive, and the weight of \<open>B\<close> rounds to zero.
\<close>

lemma optimize_table_instance:
  "positive_variances [[Fin 1, Fin 0], [Fin 0, Fin 1000000000]] [[0, 1]]
   \<and> merge_tree [(0, 1)] 2
   \<and> round8 (path_weight [[Fin 1, Fin 0], [Fin 0, Fin 1000000000]] [0, 1] 1) = 0
   \<and> (\<exists>table. optimize \<lparr>asset_names = [''A'', ''B''],
           Sample = [[Fin 1, Fin 0], [Fin 0, Fin 1000000000]],
           SampleSemi = [], BasicShrinkage = [], LedoitWolf = [], Oracle = [],
           scipy_linkage = (\<lambda>m. Inr [(0, 1)]), recursion_limit = 1000\<rparr>
           [''clusters'' \<mapsto> PyNone, ''_RiskMetrics'' \<mapsto> PyStr ''variance'',
              ''_Method'' \<mapsto> PyStr ''single'']
           (Some \<lparr>is_DataFrame = True, index_is_DatetimeIndex = True\<rparr>)
         = ([''clusters'' \<mapsto> PyNone, ''_RiskMetrics'' \<mapsto> PyStr ''variance'',
              ''_Method'' \<mapsto> PyStr ''single'', ''clusters'' \<mapsto> PyLinkage [(0, 1)]], Inr table)
       \<and> map fst table = [''A'', ''B'']
       \<and> (\<forall>y \<in> set (numbers table). 0 < y)
       \<and> sum_list (numbers table) = 1
       \<and> (''B'', Text ''nan'') \<in> set table)"
proof -
  let ?cv = "[[Fin 1, Fin 0], [Fin 0, Fin 1000000000]]"
  let ?ext = "\<lparr>asset_names = [''A'', ''B''], Sample = ?cv,
           SampleSemi = [], BasicShrinkage = [], LedoitWolf = [], Oracle = [],
           scipy_linkage = (\<lambda>m. Inr [(0, 1)]), recursion_limit = 1000\<rparr>"
  let ?self = "[''clusters'' \<mapsto> PyNone, ''_RiskMetrics'' \<mapsto> PyStr ''variance'',
              ''_Method'' \<mapsto> PyStr ''single'']"
  let ?t = "\<lparr>is_DataFrame = True, index_is_DatetimeIndex = True\<rparr>"
  have b1: "bisection [[0, 1]] = [[0], [1]]" by code_simp
  have b2: "bisection [[0], [1]] = []" by code_simp
  have v0: "getClusterVar ?cv [0] = Inr (Fin 1)" by code_simp
  have v1: "getClusterVar ?cv [1] = Inr (Fin 1000000000)" by code_simp
  have pv: "positive_variances ?cv [[0, 1]]"
    unfolding positive_variances_def
  proof (intro allI ballI)
    fix n h assume h: "h \<in> set ((bisection ^^ Suc n) [[0, 1]])"
    show "\<exists>x. 0 < x \<and> getClusterVar ?cv h = Inr (Fin x)"
    proof (cases n)
      case 0
      with h have "h = [0] \<or> h = [1]" by (simp add: b1)
      with v0 v1 show ?thesis by auto
    next
      case (Suc m)
      have "(bisection ^^ Suc (Suc m)) [[0, 1]] = (bisection ^^ m) (bisection (bisection [[0, 1]]))"
        by (simp only: funpow_Suc_right o_apply)
      also have "\<dots> = []" by (simp only: b1 b2 funpow_bisection_Nil)
      finally show ?thesis using h Suc by simp
    qed
  qed
  have tree: "merge_tree [(0, 1)] (int (length (asset_names ?ext)))"
    by (simp add: merge_tree_def bounded_children_def children_def)
  have q: "getQuasiDiag (recursion_limit ?ext) [(0, 1)] (int (length (asset_names ?ext)))
              (2 * int (length (asset_names ?ext)) - 2) = Inr [0, 1]"
    by code_simp
  have i: "init ''Variance'' ''Single'' = Inr ?self"
    by (simp add: init_def risk_metric_names_def method_names_def lower_def lower_char_def)
  have lo: "lower ''Variance'' = ''variance''" "lower ''Single'' = ''single''"
    by (simp_all add: lower_def lower_char_def)
  have cv: "risk_matrix_of ?ext (PyStr (lower ''Variance'')) = Inr ?cv"
    by (simp add: lo risk_matrix_of_def)
  have link: "scipy_linkage ?ext (lower ''Single'') = Inr [(0, 1)]" by simp
  have t: "is_DataFrame ?t" "index_is_DatetimeIndex ?t" by simp_all
  have dn: "distinct (asset_names ?ext)" by simp
  have n: "length (asset_names ?ext) \<le> 10 ^ 8" by simp
  have pw: "path_weight ?cv [0, 1] 1 = 1 / 1000000001"
    by (simp add: path_weight.simps split_factor_def variance_of_def v0 v1)
  have z: "round8 (path_weight ?cv [0, 1] 1) = 0"
    unfolding pw by code_simp
  from optimize_table [OF t i cv link tree q pv dn n] obtain table where
    "optimize ?ext ?self (Some ?t) = (?self(''clusters'' \<mapsto> PyLinkage [(0, 1)]), Inr table)"
    "map fst table = asset_names ?ext" "\<forall>y \<in> set (numbers table). 0 < y"
    "sum_list (numbers table) = 1"
    "\<forall>k < length (asset_names ?ext).
        round8 (path_weight ?cv [0, 1] (int k)) = 0 \<longrightarrow> (asset_names ?ext ! k, Text ''nan'') \<in> set table"
    by blast
  moreover from this(5) z have "(''B'', Text ''nan'') \<in> set table"
    by (simp add: All_less_Suc2 numeral_2_eq_2) 
  ultimately show ?thesis using pv tree z by auto
qed

subsection \<open>The table that \<open>optimize\<close> returns\<close>

text \<open>
  Claim C1, at an input where the code departs from it. Two uncorrelated assets with the
  variances \<open>1\<close> and \<open>10^9\<close>; the linkage of two assets is the one merge \<open>(0, 1)\<close>. The
  recursive bisection gives \<open>B\<close> the weight \<open>1 / (10^9 + 1)\<close>, which rounds to zero.
  The numbers of the returned table are non-negative and sum to 1, and the table still
  has the column \<open>B\<close>, holding the string \<open>'nan'\<close>: line 192 stores a string, which
  \<open>dropna\<close> does not take for a missing value. Lemma \<open>optimize_table\<close> above has the
  general form: whenever every cluster variance of the bisection is positive, the
  numbers of the table are positive and sum to 1, and every asset whose weight rounds
  to zero keeps its column.
\<close>

theorem optimize_zero_weight_column:
  "getRecBipart [[Fin 1, Fin 0], [Fin 0, Fin 1000000000]] [''A'', ''B''] [0, 1]
     = Inr [(''A'', Fin (1000000000 / 1000000001)), (''B'', Fin (1 / 1000000001))]
   \<and> round8 (1 / 1000000001) = 0
   \<and> optimize \<lparr>asset_names = [''A'', ''B''],
         Sample = [[Fin 1, Fin 0], [Fin 0, Fin 1000000000]],
         SampleSemi = [], BasicShrinkage = [], LedoitWolf = [], Oracle = [],
         scipy_linkage = (\<lambda>m. Inr [(0, 1)]), recursion_limit = 1000\<rparr>
         [''clusters'' \<mapsto> PyNone, ''_RiskMetrics'' \<mapsto> PyStr ''variance'',
            ''_Method'' \<mapsto> PyStr ''single'']
         (Some \<lparr>is_DataFrame = True, index_is_DatetimeIndex = True\<rparr>)
       = ([''clusters'' \<mapsto> PyLinkage [(0, 1)], ''_RiskMetrics'' \<mapsto> PyStr ''variance'',
            ''_Method'' \<mapsto> PyStr ''single''],
          Inr [(''A'', Number (Fin 1)), (''B'', Text ''nan'')])"
proof -
  let ?self0 = "[''clusters'' \<mapsto> PyNone, ''_RiskMetrics'' \<mapsto> PyStr ''variance'',
            ''_Method'' \<mapsto> PyStr ''single'']"
  let ?self1 = "[''clusters'' \<mapsto> PyLinkage [(0, 1)], ''_RiskMetrics'' \<mapsto> PyStr ''variance'',
            ''_Method'' \<mapsto> PyStr ''single'']"
  have q: "getQuasiDiag 1000 [(0, 1)] 2 2 = Inr [0, 1]"
    by code_simp
  have r: "getRecBipart [[Fin 1, Fin 0], [Fin 0, Fin 1000000000]] [''A'', ''B''] [0, 1]
     = Inr [(''A'', Fin (1000000000 / 1000000001)), (''B'', Fin (1 / 1000000001))]"
    by code_simp
  have z: "round8 (1 / 1000000001) = 0"
    by code_simp
  have p: "postprocess [''A'', ''B'']
             [(''A'', Fin (1000000000 / 1000000001)), (''B'', Fin (1 / 1000000001))]
            = Inr [(''A'', Number (Fin 1)), (''B'', Text ''nan'')]"
    by code_simp
  have s: "?self0(''clusters'' \<mapsto> PyLinkage [(0, 1)]) = ?self1"
    by (rule ext) simp
  have o: "optimize \<lparr>asset_names = [''A'', ''B''],
         Sample = [[Fin 1, Fin 0], [Fin 0, Fin 1000000000]],
         SampleSemi = [], BasicShrinkage = [], LedoitWolf = [], Oracle = [],
         scipy_linkage = (\<lambda>m. Inr [(0, 1)]), recursion_limit = 1000\<rparr> ?self0
         (Some \<lparr>is_DataFrame = True, index_is_DatetimeIndex = True\<rparr>)
      = (?self1, Inr [(''A'', Number (Fin 1)), (''B'', Text ''nan'')])"
    unfolding s [symmetric]
    by (simp add: optimize_def validate_def getattr_def risk_matrix_of_def linkage_of_def q r p)
  from r z o show ?thesis by (intro conjI)
qed

text \<open>
  Claim C8, at an input where the code departs from it. Three assets: \<open>A\<close> and \<open>B\<close> with
  the variance \<open>1\<close> and the correlation \<open>1 / 2\<close>, and \<open>C\<close> with the variance \<open>10^9\<close>,
  uncorrelated with both; the linkage merges \<open>A\<close> with \<open>B\<close> and then \<open>C\<close> with the two.
  The weights are rounded to 8 digits and divided by their sum, which makes the weight
  of \<open>C\<close> zero, and the step that is to drop it leaves \<open>C\<close> in the returned table with
  the string \<open>'nan'\<close>. Lemma \<open>postprocess_table\<close> above has the general form for weights
  that are non-negative numbers of sum 1: the rounded weights are divided by their sum,
  and a weight that rounds to zero gives a column \<open>'nan'\<close>.
\<close>

theorem postprocess_keeps_zero_weight:
  "getQuasiDiag 1000 [(0, 1), (2, 3)] 3 4 = Inr [2, 0, 1]
   \<and> getRecBipart [[Fin 1, Fin (1 / 2), Fin 0], [Fin (1 / 2), Fin 1, Fin 0],
                    [Fin 0, Fin 0, Fin 1000000000]] [''A'', ''B'', ''C''] [2, 0, 1]
       = Inr [(''C'', Fin (3 / 4000000003)), (''A'', Fin (2000000000 / 4000000003)),
              (''B'', Fin (2000000000 / 4000000003))]
   \<and> map round8 [3 / 4000000003, 2000000000 / 4000000003] = [0, 1 / 2]
   \<and> snd (optimize \<lparr>asset_names = [''A'', ''B'', ''C''],
         Sample = [[Fin 1, Fin (1 / 2), Fin 0], [Fin (1 / 2), Fin 1, Fin 0],
                   [Fin 0, Fin 0, Fin 1000000000]],
         SampleSemi = [], BasicShrinkage = [], LedoitWolf = [], Oracle = [],
         scipy_linkage = (\<lambda>m. Inr [(0, 1), (2, 3)]), recursion_limit = 1000\<rparr>
         [''clusters'' \<mapsto> PyNone, ''_RiskMetrics'' \<mapsto> PyStr ''variance'',
            ''_Method'' \<mapsto> PyStr ''single'']
         (Some \<lparr>is_DataFrame = True, index_is_DatetimeIndex = True\<rparr>))
       = Inr [(''A'', Number (Fin (1 / 2))), (''B'', Number (Fin (1 / 2))), (''C'', Text ''nan'')]"
proof -
  have q: "getQuasiDiag 1000 [(0, 1), (2, 3)] 3 4 = Inr [2, 0, 1]"
    by code_simp
  have r: "getRecBipart [[Fin 1, Fin (1 / 2), Fin 0], [Fin (1 / 2), Fin 1, Fin 0],
                    [Fin 0, Fin 0, Fin 1000000000]] [''A'', ''B'', ''C''] [2, 0, 1]
       = Inr [(''C'', Fin (3 / 4000000003)), (''A'', Fin (2000000000 / 4000000003)),
              (''B'', Fin (2000000000 / 4000000003))]"
    by code_simp
  have z: "map round8 [3 / 4000000003, 2000000000 / 4000000003] = [0, 1 / 2]"
    by code_simp
  have p: "postprocess [''A'', ''B'', ''C'']
             [(''C'', Fin (3 / 4000000003)), (''A'', Fin (2000000000 / 4000000003)),
              (''B'', Fin (2000000000 / 4000000003))]
       = Inr [(''A'', Number (Fin (1 / 2))), (''B'', Number (Fin (1 / 2))), (''C'', Text ''nan'')]"
    by code_simp
  have o: "snd (optimize \<lparr>asset_names = [''A'', ''B'', ''C''],
         Sample = [[Fin 1, Fin (1 / 2), Fin 0], [Fin (1 / 2), Fin 1, Fin 0],
                   [Fin 0, Fin 0, Fin 1000000000]],
         SampleSemi = [], BasicShrinkage = [], LedoitWolf = [], Oracle = [],
         scipy_linkage = (\<lambda>m. Inr [(0, 1), (2, 3)]), recursion_limit = 1000\<rparr>
         [''clusters'' \<mapsto> PyNone, ''_RiskMetrics'' \<mapsto> PyStr ''variance'',
            ''_Method'' \<mapsto> PyStr ''single'']
         (Some \<lparr>is_DataFrame = True, index_is_DatetimeIndex = True\<rparr>))
       = Inr [(''A'', Number (Fin (1 / 2))), (''B'', Number (Fin (1 / 2))), (''C'', Text ''nan'')]"
    by (simp add: optimize_def validate_def getattr_def risk_matrix_of_def linkage_of_def q r p)
  from q r z o show ?thesis by (intro conjI)
qed

end
